theory Spec2Isabelle
  imports Complex_Main "HOL-Library.AList" "HOL-Library.Sublist"
begin

section \<open>JavaScript values and option objects\<close>

text \<open>
  Option objects are JSON-like values. An object is a list of own enumerable
  properties in insertion order; its prototype is \<open>Object.prototype\<close>, whose
  members matter in two places of \<open>deepMerge\<close>, both written out there.
  Numbers are exact rationals; \<open>NaN\<close> and the infinities only arise in the
  report arithmetic and are modelled there.
\<close>

datatype jsval =
    Undefined
  | Null
  | Bool bool
  | Num rat
  | Str string
  | Arr "jsval list"
  | Obj "(string \<times> jsval) list"

type_synonym props = "(string \<times> jsval) list"

text \<open>JavaScript truthiness, as used by \<open>||\<close> and \<open>if\<close>.\<close>

fun truthy :: "jsval \<Rightarrow> bool" where
  "truthy Undefined = False"
| "truthy Null = False"
| "truthy (Bool b) = b"
| "truthy (Num n) = (n \<noteq> 0)"
| "truthy (Str s) = (s \<noteq> [])"
| "truthy (Arr xs) = True"
| "truthy (Obj kvs) = True"

definition js_or :: "jsval \<Rightarrow> jsval \<Rightarrow> jsval" where
  "js_or a b = (if truthy a then a else b)"

text \<open>Property read \<open>o[key]\<close> on an object given by its property list.\<close>

definition getProp :: "props \<Rightarrow> string \<Rightarrow> jsval" where
  "getProp kvs key = (case map_of kvs key of None \<Rightarrow> Undefined | Some v \<Rightarrow> v)"

text \<open>Decimal rendering of an array or string index, as a property key.\<close>

fun digitsOf :: "nat \<Rightarrow> string" where
  "digitsOf n =
     (if n < 10 then [''0123456789'' ! n]
      else digitsOf (n div 10) @ [''0123456789'' ! (n mod 10)])"

text \<open>
  The own enumerable properties of a value: what \<open>{...v}\<close> copies and what
  \<open>for (key in v)\<close> filtered by \<open>hasOwnProperty\<close> visits. Strings and
  arrays expose their indices, other primitives nothing.
\<close>

fun spread :: "jsval \<Rightarrow> props" where
  "spread (Obj kvs) = kvs"
| "spread (Arr xs) = map (\<lambda>i. (digitsOf i, xs ! i)) [0..<length xs]"
| "spread (Str s) = map (\<lambda>i. (digitsOf i, Str [s ! i])) [0..<length s]"
| "spread v = []"

subsection \<open>deepMerge and validateOptions (lib/utils)\<close>

text \<open>
  \<^verbatim>\<open>
  function deepMerge(target, source) {
    const result = { ...target };
    for (const key in source) {
      if (source.hasOwnProperty(key)) {
        if (typeof source[key] === 'object' && source[key] !== null && !Array.isArray(source[key])) {
          result[key] = deepMerge(result[key] || {}, source[key]);
        } else {
          result[key] = source[key];
        }
      }
    }
    return result;
  }
  \<close>
  \<open>mergeProps result source\<close> is the loop: \<open>result\<close> is the object under
  construction, \<open>source\<close> the properties still to visit. \<open>typeof v === 'object'\<close>
  with the \<open>null\<close> and array tests leaves exactly the \<open>Obj\<close> values.

  \<open>source.hasOwnProperty\<close> is looked up on the source itself: when the source has
  an own key \<open>hasOwnProperty\<close> (no value of an option object is a function), the
  call throws a \<open>TypeError\<close> at the first key.

  \<open>result[key]\<close> of a key that \<open>result\<close> does not have reads
  \<open>Object.prototype\<close>: \<open>undefined\<close>, or for the name of one of its methods a
  function, which is truthy and spreads to nothing, as the \<open>{}\<close> taken for
  \<open>undefined\<close> does.

  \<open>result['__proto__']\<close> reaches the accessor of \<open>Object.prototype\<close> unless
  \<open>result\<close> has an own property of that name (the spread of the target defines one
  when the target has it). Through the accessor, reading gives \<open>Object.prototype\<close>,
  which is truthy and spreads to nothing; assigning a primitive other than \<open>null\<close>
  does nothing, and assigning an object, an array or \<open>null\<close> replaces the prototype
  of \<open>result\<close>. An object with another prototype is not a value of \<open>jsval\<close>:
  the merge then ends in \<open>ForeignPrototype\<close>, unless a later key throws, which no
  prototype prevents (the call of \<open>hasOwnProperty\<close> depends on the source alone).
\<close>

datatype 'a completion = Returned 'a | TypeError | ForeignPrototype

fun offModel :: "'a completion \<Rightarrow> 'a completion" where
  "offModel TypeError = TypeError"
| "offModel c = ForeignPrototype"

definition hasKey :: "props \<Rightarrow> string \<Rightarrow> bool" where
  "hasKey kvs key = (map_of kvs key \<noteq> None)"

fun setsPrototype :: "jsval \<Rightarrow> bool" where
  "setsPrototype Null = True"
| "setsPrototype (Arr xs) = True"
| "setsPrototype (Obj kvs) = True"
| "setsPrototype v = False"

fun mergeProps :: "props \<Rightarrow> props \<Rightarrow> props completion" where
  "mergeProps result [] = Returned result"
| "mergeProps result ((key, v) # rest) =
     (let accessor = (key = ''__proto__'' \<and> \<not> hasKey result key)
      in case v of
           Obj src \<Rightarrow>
             (if hasKey src ''hasOwnProperty'' then TypeError
              else case mergeProps (spread (js_or (getProp result key) (Obj []))) src of
                     TypeError \<Rightarrow> TypeError
                   | ForeignPrototype \<Rightarrow> offModel (mergeProps result rest)
                   | Returned merged \<Rightarrow>
                       (if accessor then offModel (mergeProps result rest)
                        else mergeProps (AList.update key (Obj merged) result) rest))
         | _ \<Rightarrow>
             (if accessor then
                (if setsPrototype v then offModel (mergeProps result rest)
                 else mergeProps result rest)
              else mergeProps (AList.update key v result) rest))"

definition deepMerge :: "jsval \<Rightarrow> jsval \<Rightarrow> props completion" where
  "deepMerge target source =
     (if hasKey (spread source) ''hasOwnProperty'' then TypeError
      else mergeProps (spread target) (spread source))"

definition defaults :: props where
  "defaults =
     [(''inputDir'', Str ''./''),
      (''outputDir'', Str ''./dist''),
      (''html'', Bool True),
      (''css'', Bool True),
      (''js'', Bool True),
      (''images'', Bool True),
      (''backup'', Bool False),
      (''verbose'', Bool False)]"

definition validateOptions :: "jsval \<Rightarrow> props completion" where
  "validateOptions options = deepMerge (Obj defaults) options"

subsection \<open>The optimizer's constructor\<close>

text \<open>
  \<^verbatim>\<open>
  constructor(options = {}) {
    this.options = {
      inputDir: options.inputDir || './',
      outputDir: options.outputDir || './dist',
      html: options.html !== false,
      css: options.css !== false,
      js: options.js !== false,
      images: options.images !== false,
      backup: options.backup !== false,
      verbose: options.verbose || false,
      ...options
    };
    this.stats = { originalSize: 0, optimizedSize: 0, filesProcessed: 0, timeElapsed: 0 };
  }
  \<close>
  \<open>v !== false\<close> is false only for the boolean \<open>false\<close>. The trailing
  spread assigns every own property of \<open>options\<close> over the literal, in order.
\<close>

definition notFalse :: "jsval \<Rightarrow> jsval" where
  "notFalse v = Bool (v \<noteq> Bool False)"

definition assignAll :: "props \<Rightarrow> props \<Rightarrow> props" where
  "assignAll result src = fold (\<lambda>(k, v) r. AList.update k v r) src result"

definition constructorOptions :: "props \<Rightarrow> props" where
  "constructorOptions options =
     assignAll
       [(''inputDir'', js_or (getProp options ''inputDir'') (Str ''./'')),
        (''outputDir'', js_or (getProp options ''outputDir'') (Str ''./dist'')),
        (''html'', notFalse (getProp options ''html'')),
        (''css'', notFalse (getProp options ''css'')),
        (''js'', notFalse (getProp options ''js'')),
        (''images'', notFalse (getProp options ''images'')),
        (''backup'', notFalse (getProp options ''backup'')),
        (''verbose'', js_or (getProp options ''verbose'') (Bool False))]
       options"

section \<open>Statistics and the savings figures\<close>

record stats =
  originalSize :: int
  optimizedSize :: int
  filesProcessed :: int
  timeElapsed :: int

definition initialStats :: stats where
  "initialStats = \<lparr>originalSize = 0, optimizedSize = 0, filesProcessed = 0, timeElapsed = 0\<rparr>"

text \<open>
  \<^verbatim>\<open>
  updateStats(originalSize, optimizedSize) {
    this.stats.originalSize += originalSize;
    this.stats.optimizedSize += optimizedSize;
    this.stats.filesProcessed++;
  }
  \<close>
\<close>

definition updateStats :: "stats \<Rightarrow> int \<Rightarrow> int \<Rightarrow> stats" where
  "updateStats st orig opt =
     st\<lparr>originalSize := originalSize st + orig,
        optimizedSize := optimizedSize st + opt,
        filesProcessed := filesProcessed st + 1\<rparr>"

text \<open>
  JavaScript numbers as far as the report needs them: a finite value (an exact
  rational here; the binary rounding of IEEE doubles is not modelled), \<open>NaN\<close>
  and the two infinities, which division by zero produces.
\<close>

datatype jsnum = Finite rat | NaN | PosInfinity | NegInfinity

definition js_div :: "int \<Rightarrow> int \<Rightarrow> jsnum" where
  "js_div a b =
     (if b = 0 then (if a = 0 then NaN else if 0 < a then PosInfinity else NegInfinity)
      else Finite (of_int a / of_int b))"

fun js_times :: "jsnum \<Rightarrow> rat \<Rightarrow> jsnum" where
  "js_times (Finite x) k = Finite (x * k)"
| "js_times NaN k = NaN"
| "js_times PosInfinity k = (if 0 < k then PosInfinity else if k < 0 then NegInfinity else NaN)"
| "js_times NegInfinity k = (if 0 < k then NegInfinity else if k < 0 then PosInfinity else NaN)"

text \<open>
  \<open>x.toFixed(d)\<close>: the decimal with \<open>d\<close> fraction digits nearest to
  \<open>x\<close>, ties away from zero, as text. The text is kept as the scaled integer
  (\<open>Decimal d n\<close> stands for \<open>n / 10^d\<close> printed with \<open>d\<close> digits);
  the three non-finite numbers print as their names.
\<close>

datatype numtext = Decimal nat int | TextNaN | TextInfinity | TextNegInfinity

definition roundScaled :: "nat \<Rightarrow> rat \<Rightarrow> int" where
  "roundScaled d x =
     (if 0 \<le> x then \<lfloor>x * 10 ^ d + 1 / 2\<rfloor> else - \<lfloor>- x * 10 ^ d + 1 / 2\<rfloor>)"

fun toFixed :: "nat \<Rightarrow> jsnum \<Rightarrow> numtext" where
  "toFixed d (Finite x) = Decimal d (roundScaled d x)"
| "toFixed d NaN = TextNaN"
| "toFixed d PosInfinity = TextInfinity"
| "toFixed d NegInfinity = TextNegInfinity"

fun parseFloat :: "numtext \<Rightarrow> jsnum" where
  "parseFloat (Decimal d n) = Finite (of_int n / 10 ^ d)"
| "parseFloat TextNaN = NaN"
| "parseFloat TextInfinity = PosInfinity"
| "parseFloat TextNegInfinity = NegInfinity"

text \<open>
  \<^verbatim>\<open>
  function calculateCompressionRatio(originalSize, optimizedSize) {
    const savedBytes = originalSize - optimizedSize;
    const savedPercentage = originalSize > 0 ? ((savedBytes / originalSize) * 100).toFixed(2) : 0;
    return {
      originalSize, optimizedSize, savedBytes,
      savedPercentage: parseFloat(savedPercentage),
      compressionRatio: originalSize > 0 ? (optimizedSize / originalSize).toFixed(4) : 1
    };
  }
  \<close>
  \<open>parseFloat(0)\<close> is \<open>0\<close>; the ratio is a text when it is computed and the
  number \<open>1\<close> otherwise, kept here as the text \<open>Decimal 0 1\<close>.
\<close>

record compression =
  c_originalSize :: int
  c_optimizedSize :: int
  savedBytes :: int
  savedPercentage :: jsnum
  compressionRatio :: numtext

definition calculateCompressionRatio :: "int \<Rightarrow> int \<Rightarrow> compression" where
  "calculateCompressionRatio orig opt =
     (let saved = orig - opt in
      \<lparr>c_originalSize = orig,
       c_optimizedSize = opt,
       savedBytes = saved,
       savedPercentage =
         (if 0 < orig then parseFloat (toFixed 2 (js_times (js_div saved orig) 100))
          else Finite 0),
       compressionRatio =
         (if 0 < orig then toFixed 4 (js_div opt orig) else Decimal 0 1)\<rparr>)"

text \<open>
  The figures of the end-of-run report:
  \<^verbatim>\<open>
  showResults() {
    const savedBytes = this.stats.originalSize - this.stats.optimizedSize;
    const savedPercentage = ((savedBytes / this.stats.originalSize) * 100).toFixed(2);
    ... console.log(... formatBytes(savedBytes) ... (${savedPercentage}%) ...)
  }
  \<close>
\<close>

record report =
  r_filesProcessed :: int
  r_originalSize :: int
  r_optimizedSize :: int
  r_savedBytes :: int
  r_savedPercentage :: numtext
  r_timeElapsed :: int

definition showResults :: "stats \<Rightarrow> report" where
  "showResults st =
     (let saved = originalSize st - optimizedSize st in
      \<lparr>r_filesProcessed = filesProcessed st,
       r_originalSize = originalSize st,
       r_optimizedSize = optimizedSize st,
       r_savedBytes = saved,
       r_savedPercentage = toFixed 2 (js_times (js_div saved (originalSize st)) 100),
       r_timeElapsed = timeElapsed st\<rparr>)"

section \<open>The file system\<close>

text \<open>
  The optimizer works through Node's \<open>fs\<close> and \<open>path\<close> modules and the
  \<open>glob\<close> package, none of which is part of the repository. They are modelled
  as follows. A path is the list of its segments below the working directory
  (\<open>path.join\<close> is append, \<open>path.dirname\<close> is \<open>butlast\<close>); the working
  directory itself is the empty path and always exists. The file system is a list of
  entries in creation order, each a regular file with its bytes or a directory. Symbolic
  links, permissions and \<open>..\<close> segments are not modelled.
\<close>

type_synonym path = "string list"

datatype node = File string | Dir

type_synonym fs = "(path \<times> node) list"

datatype error =
    ENOENT
  | ENOTDIR
  | EISDIR
  | EEXIST
  | AdapterError
  | Unsupported string
  | Wrapped error

definition lookup :: "fs \<Rightarrow> path \<Rightarrow> node option" where
  "lookup s p = (if p = [] then Some Dir else map_of s p)"

fun isFile :: "node option \<Rightarrow> bool" where
  "isFile (Some (File c)) = True"
| "isFile n = False"

text \<open>
  A well-formed tree: every entry is listed once and lies in a directory.
\<close>

definition wf_fs :: "fs \<Rightarrow> bool" where
  "wf_fs s \<longleftrightarrow>
     distinct (map fst s) \<and> (\<forall>p. lookup s p \<noteq> None \<longrightarrow> lookup s (butlast p) = Some Dir)"

definition existsSync :: "fs \<Rightarrow> path \<Rightarrow> bool" where
  "existsSync s p = (lookup s p \<noteq> None)"

text \<open>
  \<open>fs.statSync(p).size\<close>. The size of a directory depends on the platform; it is
  taken as 0 (no size of a directory is ever recorded: a step that records sizes has
  read its input and written its output as regular files).
\<close>

definition statSync :: "fs \<Rightarrow> path \<Rightarrow> error + int" where
  "statSync s p =
     (case lookup s p of
        None \<Rightarrow> Inl ENOENT
      | Some (File c) \<Rightarrow> Inr (int (length c))
      | Some Dir \<Rightarrow> Inr 0)"

text \<open>
  \<open>fs.mkdirSync(p, { recursive: true })\<close>: fails when \<open>p\<close> or one of its
  ancestors is a regular file, and otherwise creates every missing directory on the way
  to \<open>p\<close>, \<open>p\<close> included.
\<close>

definition ensureDir :: "path \<Rightarrow> fs \<Rightarrow> fs" where
  "ensureDir q s = (if lookup s q = None then AList.update q Dir s else s)"

definition mkdirSync :: "fs \<Rightarrow> path \<Rightarrow> error + fs" where
  "mkdirSync s p =
     (case find (\<lambda>q. isFile (lookup s q)) (prefixes p) of
        Some q \<Rightarrow> Inl (if q = p then EEXIST else ENOTDIR)
      | None \<Rightarrow> Inr (fold ensureDir (prefixes p) s))"

text \<open>
  \<open>fs.writeFileSync(p, content)\<close>: the parent must be a directory and \<open>p\<close>
  must not be one; an existing file is replaced.
\<close>

definition writeFileSync :: "fs \<Rightarrow> path \<Rightarrow> string \<Rightarrow> error + fs" where
  "writeFileSync s p content =
     (if p = [] then Inl EISDIR
      else case lookup s (butlast p) of
        None \<Rightarrow> Inl ENOENT
      | Some (File c) \<Rightarrow> Inl ENOTDIR
      | Some Dir \<Rightarrow>
          (case lookup s p of
             Some Dir \<Rightarrow> Inl EISDIR
           | _ \<Rightarrow> Inr (AList.update p (File content) s)))"

definition readFileSync :: "fs \<Rightarrow> path \<Rightarrow> error + string" where
  "readFileSync s p =
     (case lookup s p of
        None \<Rightarrow> Inl ENOENT
      | Some Dir \<Rightarrow> Inl EISDIR
      | Some (File c) \<Rightarrow> Inr c)"

definition copyFileSync :: "fs \<Rightarrow> path \<Rightarrow> path \<Rightarrow> error + fs" where
  "copyFileSync s src dest =
     (case readFileSync s src of
        Inl e \<Rightarrow> Inl e
      | Inr c \<Rightarrow> writeFileSync s dest c)"

text \<open>
  \<open>fs.readdirSync(p, { withFileTypes: true })\<close>: the names of the entries directly
  in \<open>p\<close>, each with its \<open>isDirectory()\<close> flag, in creation order.
\<close>

definition readdirSync :: "fs \<Rightarrow> path \<Rightarrow> error + (string \<times> bool) list" where
  "readdirSync s p =
     (case lookup s p of
        None \<Rightarrow> Inl ENOENT
      | Some (File c) \<Rightarrow> Inl ENOTDIR
      | Some Dir \<Rightarrow>
          Inr (map (\<lambda>(q, n). (last q, n = Dir))
                 (filter (\<lambda>(q, n). q \<noteq> [] \<and> butlast q = p) s)))"

text \<open>
  \<open>glob('**/*.ext', { cwd })\<close> and its brace form \<open>**/*.{e1,...,en}\<close>: the
  paths relative to \<open>cwd\<close> of all entries below it (directories too, as the
  package does unless \<open>nodir\<close> is set) whose name ends in one of the extensions;
  neither \<open>**\<close> nor \<open>*\<close> matches a segment that starts with a dot. The
  order is the creation order.
\<close>

definition hiddenName :: "string \<Rightarrow> bool" where
  "hiddenName name = (case name of [] \<Rightarrow> False | c # cs \<Rightarrow> c = CHR ''.'')"

definition matchesExt :: "string list \<Rightarrow> string \<Rightarrow> bool" where
  "matchesExt exts name = list_ex (\<lambda>e. suffix (CHR ''.'' # e) name) exts"

definition globMatch :: "path \<Rightarrow> string list \<Rightarrow> path \<Rightarrow> bool" where
  "globMatch cwd exts q =
     (strict_prefix cwd q \<and> \<not> list_ex hiddenName (drop (length cwd) q) \<and> matchesExt exts (last q))"

definition glob :: "fs \<Rightarrow> path \<Rightarrow> string list \<Rightarrow> path list" where
  "glob s cwd exts = map (drop (length cwd)) (filter (globMatch cwd exts) (map fst s))"

subsection \<open>getFileSize (lib/utils)\<close>

text \<open>
  \<^verbatim>\<open>
  function getFileSize(filePath) {
    try {
      const stats = fs.statSync(filePath);
      return stats.size;
    } catch (error) {
      return 0;
    }
  }
  \<close>
\<close>

definition getFileSize :: "fs \<Rightarrow> path \<Rightarrow> int" where
  "getFileSize s p = (case statSync s p of Inl e \<Rightarrow> 0 | Inr n \<Rightarrow> n)"

subsection \<open>File names\<close>

definition stemOf :: "string \<Rightarrow> string" where
  "stemOf name =
     (if CHR ''.'' \<in> set name then rev (tl (dropWhile (\<lambda>c. c \<noteq> CHR ''.'') (rev name)))
      else name)"

definition extOf :: "string \<Rightarrow> string" where
  "extOf name =
     (if CHR ''.'' \<in> set name then CHR ''.'' # rev (takeWhile (\<lambda>c. c \<noteq> CHR ''.'') (rev name))
      else [])"

text \<open>ASCII \<open>toLowerCase\<close>.\<close>

definition lowerChar :: "char \<Rightarrow> char" where
  "lowerChar c =
     (case map_of (zip ''ABCDEFGHIJKLMNOPQRSTUVWXYZ'' ''abcdefghijklmnopqrstuvwxyz'') c of
        None \<Rightarrow> c
      | Some d \<Rightarrow> d)"

text \<open>
  \<open>path.extname(p).toLowerCase()\<close>: from the last dot of the base name, empty when
  there is no dot or the only dot leads the name.
\<close>

definition extname :: "path \<Rightarrow> string" where
  "extname p =
     (if p = [] \<or> stemOf (last p) = [] then [] else map lowerChar (extOf (last p)))"

text \<open>
  \<open>outputPath.replace(/\.[^.]+$/, '.webp')\<close> on a path: the text from the last dot
  of the whole path on is replaced, unless the path ends in that dot or has no dot.
\<close>

fun replaceLastDot :: "string list \<Rightarrow> string list option" where
  "replaceLastDot [] = None"
| "replaceLastDot (seg # earlier) =
     (if CHR ''.'' \<in> set seg then Some ((stemOf seg @ ''.webp'') # earlier)
      else replaceLastDot earlier)"

definition webpPathOf :: "path \<Rightarrow> path" where
  "webpPathOf p =
     (if p = [] \<or> last (last p) = CHR ''.'' then p
      else case replaceLastDot (rev p) of None \<Rightarrow> p | Some r \<Rightarrow> rev r)"

fun containsText :: "string \<Rightarrow> string \<Rightarrow> bool" where
  "containsText t [] = (t = [])"
| "containsText t (c # cs) = (prefix t (c # cs) \<or> containsText t cs)"

section \<open>The compression adapters\<close>

text \<open>
  The minifiers and image encoders are external libraries (html-minifier-terser,
  postcss and clean-css, terser, imagemin and its plugins). Each is a function of the
  content it is given, with the run's configuration fixed; the regular-expression passes
  that the optimizer classes wrap around the library call are part of the same function.
  \<open>None\<close> stands for a thrown error. The text adapters also receive the path
  (postcss is given it).
\<close>

record adapters =
  minifyHTML :: "path \<Rightarrow> string \<Rightarrow> string option"
  minifyCSS :: "path \<Rightarrow> string \<Rightarrow> string option"
  minifyJS :: "path \<Rightarrow> string \<Rightarrow> string option"
  minJPEG :: "string \<Rightarrow> string option"
  minPNG :: "string \<Rightarrow> string option"
  minSVG :: "string \<Rightarrow> string option"
  minWebP :: "string \<Rightarrow> string option"

datatype category = HTML | CSS | JS

fun textAdapter :: "adapters \<Rightarrow> category \<Rightarrow> path \<Rightarrow> string \<Rightarrow> string option" where
  "textAdapter ad HTML = minifyHTML ad"
| "textAdapter ad CSS = minifyCSS ad"
| "textAdapter ad JS = minifyJS ad"

fun pattern :: "category \<Rightarrow> string list" where
  "pattern HTML = [''html'']"
| "pattern CSS = [''css'']"
| "pattern JS = [''js'']"

definition imagePattern :: "string list" where
  "imagePattern = [''jpg'', ''jpeg'', ''png'', ''gif'', ''svg'', ''webp'']"

text \<open>
  \<open>optimizeHTML\<close>, \<open>optimizeCSS\<close> and \<open>optimizeJS\<close>: read the file, run the
  adapter, and rethrow any error wrapped in a new one.
\<close>

definition optimizeText :: "adapters \<Rightarrow> category \<Rightarrow> fs \<Rightarrow> path \<Rightarrow> error + string" where
  "optimizeText ad cat s p =
     (case readFileSync s p of
        Inl e \<Rightarrow> Inl (Wrapped e)
      | Inr c \<Rightarrow>
          (case textAdapter ad cat p c of
             None \<Rightarrow> Inl (Wrapped AdapterError)
           | Some c' \<Rightarrow> Inr c'))"

text \<open>\<open>imagemin([inputPath], { plugins })\<close> followed by \<open>result[0].data\<close>.\<close>

definition imagemin :: "(string \<Rightarrow> string option) \<Rightarrow> fs \<Rightarrow> path \<Rightarrow> error + string" where
  "imagemin plugin s p =
     (case readFileSync s p of
        Inl e \<Rightarrow> Inl e
      | Inr c \<Rightarrow> (case plugin c of None \<Rightarrow> Inl AdapterError | Some d \<Rightarrow> Inr d))"

section \<open>The optimizer\<close>

record config =
  inputDir :: path
  outputDir :: path
  html :: bool
  css :: bool
  js :: bool
  images :: bool
  backup :: bool
  generateWebP :: bool

datatype event = WebPWarning error | RunError error | Report report

datatype outcome = Done | Thrown error

text \<open>
  What a run changes: the file system, the statistics of the optimizer object, and
  the console, of which the warnings of \<open>console.warn\<close>, the error line of
  \<open>optimize\<close> and the final report are kept (progress and verbose lines are
  not).
\<close>

record world =
  files :: fs
  stats :: stats
  console :: "event list"

text \<open>
  The idiom \<open>if (!fs.existsSync(dir)) { fs.mkdirSync(dir, { recursive: true }); }\<close>.
\<close>

definition ensureExists :: "fs \<Rightarrow> path \<Rightarrow> error + fs" where
  "ensureExists s dir = (if existsSync s dir then Inr s else mkdirSync s dir)"

text \<open>
  The body of the loops of \<open>processHTML\<close>, \<open>processCSS\<close> and
  \<open>processJS\<close>, which differ in the glob pattern and the optimizer only:
  \<^verbatim>\<open>
      const inputPath = path.join(this.options.inputDir, file);
      const outputPath = path.join(this.options.outputDir, file);
      const outputDir = path.dirname(outputPath);
      if (!fs.existsSync(outputDir)) { fs.mkdirSync(outputDir, { recursive: true }); }
      const originalSize = getFileSize(inputPath);
      const optimizedContent = await optimizeHTML(inputPath, this.options);
      fs.writeFileSync(outputPath, optimizedContent);
      const optimizedSize = getFileSize(outputPath);
      this.updateStats(originalSize, optimizedSize);
  \<close>
\<close>

definition processTextFile ::
  "config \<Rightarrow> adapters \<Rightarrow> category \<Rightarrow> path \<Rightarrow> world \<Rightarrow> outcome \<times> world" where
  "processTextFile cfg ad cat file w =
     (let inputPath = inputDir cfg @ file;
          outputPath = outputDir cfg @ file
      in case ensureExists (files w) (butlast outputPath) of
           Inl e \<Rightarrow> (Thrown e, w)
         | Inr s1 \<Rightarrow>
             (let orig = getFileSize s1 inputPath
              in case optimizeText ad cat s1 inputPath of
                   Inl e \<Rightarrow> (Thrown e, w\<lparr>files := s1\<rparr>)
                 | Inr content \<Rightarrow>
                     (case writeFileSync s1 outputPath content of
                        Inl e \<Rightarrow> (Thrown e, w\<lparr>files := s1\<rparr>)
                      | Inr s2 \<Rightarrow>
                          (Done, w\<lparr>files := s2,
                                   stats := updateStats (stats w) orig (getFileSize s2 outputPath)\<rparr>))))"

text \<open>A \<open>for ... of\<close> loop whose body may throw: the first error ends it.\<close>

fun forEachFile ::
  "(path \<Rightarrow> world \<Rightarrow> outcome \<times> world) \<Rightarrow> path list \<Rightarrow> world \<Rightarrow> outcome \<times> world" where
  "forEachFile body [] w = (Done, w)"
| "forEachFile body (file # rest) w =
     (case body file w of
        (Thrown e, w') \<Rightarrow> (Thrown e, w')
      | (Done, w') \<Rightarrow> forEachFile body rest w')"

text \<open>
  \<open>processHTML\<close>, \<open>processCSS\<close>, \<open>processJS\<close>: glob, loop, and rethrow
  what the loop throws.
\<close>

definition processText :: "config \<Rightarrow> adapters \<Rightarrow> category \<Rightarrow> world \<Rightarrow> outcome \<times> world" where
  "processText cfg ad cat w =
     forEachFile (processTextFile cfg ad cat) (glob (files w) (inputDir cfg) (pattern cat)) w"

subsection \<open>Images (lib/image-optimizer)\<close>

text \<open>
  \<^verbatim>\<open>
  async generateWebP(inputPath, outputPath, options) {
    try {
      const webpPath = outputPath.replace(/\.[^.]+$/, '.webp');
      const plugins = [ imageminWebp(options.webp) ];
      const result = await imagemin([inputPath], { plugins });
      fs.writeFileSync(webpPath, result[0].data);
    } catch (error) {
      console.warn('WebP...:', error.message);
    }
  }
  \<close>
  The result is the file system afterwards and the lines written to the console.
\<close>

definition generateWebPFile :: "adapters \<Rightarrow> fs \<Rightarrow> path \<Rightarrow> path \<Rightarrow> fs \<times> event list" where
  "generateWebPFile ad s inputPath outputPath =
     (case imagemin (minWebP ad) s inputPath of
        Inl e \<Rightarrow> (s, [WebPWarning e])
      | Inr d \<Rightarrow>
          (case writeFileSync s (webpPathOf outputPath) d of
             Inl e \<Rightarrow> (s, [WebPWarning e])
           | Inr s' \<Rightarrow> (s', [])))"

text \<open>The \<open>switch (fileExt)\<close> of \<open>ImageOptimizer.optimize\<close>.\<close>

definition compressImage :: "adapters \<Rightarrow> fs \<Rightarrow> string \<Rightarrow> path \<Rightarrow> error + string" where
  "compressImage ad s fileExt inputPath =
     (if fileExt = ''.jpg'' \<or> fileExt = ''.jpeg'' then imagemin (minJPEG ad) s inputPath
      else if fileExt = ''.png'' then imagemin (minPNG ad) s inputPath
      else if fileExt = ''.svg'' then imagemin (minSVG ad) s inputPath
      else if fileExt = ''.gif'' then readFileSync s inputPath
      else if fileExt = ''.webp'' then imagemin (minWebP ad) s inputPath
      else Inl (Unsupported fileExt))"

text \<open>
  \<open>ImageOptimizer.optimize(inputPath, outputPath, options)\<close>: ensure the output
  directory, compress by extension, write, and, when \<open>options.generateWebP\<close> is set
  and the extension does not contain \<open>webp\<close>, generate the WebP version. Every
  error that reaches the outer \<open>catch\<close> is rethrown wrapped.
\<close>

definition optimizeImages ::
  "adapters \<Rightarrow> bool \<Rightarrow> fs \<Rightarrow> path \<Rightarrow> path \<Rightarrow> outcome \<times> fs \<times> event list" where
  "optimizeImages ad genWebP s inputPath outputPath =
     (let fileExt = extname inputPath
      in case ensureExists s (butlast outputPath) of
           Inl e \<Rightarrow> (Thrown (Wrapped e), s, [])
         | Inr s1 \<Rightarrow>
             (case compressImage ad s1 fileExt inputPath of
                Inl e \<Rightarrow> (Thrown (Wrapped e), s1, [])
              | Inr buffer \<Rightarrow>
                  (case writeFileSync s1 outputPath buffer of
                     Inl e \<Rightarrow> (Thrown (Wrapped e), s1, [])
                   | Inr s2 \<Rightarrow>
                       (if genWebP \<and> \<not> containsText ''webp'' fileExt
                        then (case generateWebPFile ad s2 inputPath outputPath of
                                (s3, warnings) \<Rightarrow> (Done, s3, warnings))
                        else (Done, s2, [])))))"

text \<open>
  The body of the loop of \<open>processImages\<close>:
  \<^verbatim>\<open>
      const inputPath = path.join(this.options.inputDir, file);
      const outputPath = path.join(this.options.outputDir, file);
      const outputDir = path.dirname(outputPath);
      if (!fs.existsSync(outputDir)) { fs.mkdirSync(outputDir, { recursive: true }); }
      const originalSize = getFileSize(inputPath);
      await optimizeImages(inputPath, outputPath, this.options);
      const optimizedSize = getFileSize(outputPath);
      this.updateStats(originalSize, optimizedSize);
  \<close>
\<close>

definition processImageFile :: "config \<Rightarrow> adapters \<Rightarrow> path \<Rightarrow> world \<Rightarrow> outcome \<times> world" where
  "processImageFile cfg ad file w =
     (let inputPath = inputDir cfg @ file;
          outputPath = outputDir cfg @ file
      in case ensureExists (files w) (butlast outputPath) of
           Inl e \<Rightarrow> (Thrown e, w)
         | Inr s1 \<Rightarrow>
             (let orig = getFileSize s1 inputPath
              in case optimizeImages ad (generateWebP cfg) s1 inputPath outputPath of
                   (Thrown e, s2, evs) \<Rightarrow>
                     (Thrown e, w\<lparr>files := s2, console := console w @ evs\<rparr>)
                 | (Done, s2, evs) \<Rightarrow>
                     (Done, w\<lparr>files := s2,
                              stats := updateStats (stats w) orig (getFileSize s2 outputPath),
                              console := console w @ evs\<rparr>)))"

definition processImages :: "config \<Rightarrow> adapters \<Rightarrow> world \<Rightarrow> outcome \<times> world" where
  "processImages cfg ad w =
     forEachFile (processImageFile cfg ad) (glob (files w) (inputDir cfg) imagePattern) w"

subsection \<open>Backup\<close>

text \<open>
  \<^verbatim>\<open>
  async copyDirectory(src, dest) {
    const entries = fs.readdirSync(src, { withFileTypes: true });
    for (const entry of entries) {
      const srcPath = path.join(src, entry.name);
      const destPath = path.join(dest, entry.name);
      if (entry.isDirectory()) {
        fs.mkdirSync(destPath, { recursive: true });
        await this.copyDirectory(srcPath, destPath);
      } else {
        fs.copyFileSync(srcPath, destPath);
      }
    }
  }
  \<close>
  The recursion follows the tree as it is when each directory is read, and the copy
  itself adds to the tree, so nothing bounds its depth in general. The first argument
  bounds the nesting of calls; \<open>None\<close> means the bound was reached.
\<close>

fun copyDirectory :: "nat \<Rightarrow> fs \<Rightarrow> path \<Rightarrow> path \<Rightarrow> (outcome \<times> fs) option"
  and copyEntries ::
    "nat \<Rightarrow> fs \<Rightarrow> path \<Rightarrow> path \<Rightarrow> (string \<times> bool) list \<Rightarrow> (outcome \<times> fs) option" where
  "copyDirectory 0 s src dest = None"
| "copyDirectory (Suc n) s src dest =
     (case readdirSync s src of
        Inl e \<Rightarrow> Some (Thrown e, s)
      | Inr entries \<Rightarrow> copyEntries n s src dest entries)"
| "copyEntries n s src dest [] = Some (Done, s)"
| "copyEntries n s src dest ((name, isDirectory) # rest) =
     (if isDirectory then
        (case mkdirSync s (dest @ [name]) of
           Inl e \<Rightarrow> Some (Thrown e, s)
         | Inr s1 \<Rightarrow>
             (case copyDirectory n s1 (src @ [name]) (dest @ [name]) of
                None \<Rightarrow> None
              | Some (Thrown e, s2) \<Rightarrow> Some (Thrown e, s2)
              | Some (Done, s2) \<Rightarrow> copyEntries n s2 src dest rest))
      else
        (case copyFileSync s (src @ [name]) (dest @ [name]) of
           Inl e \<Rightarrow> Some (Thrown e, s)
         | Inr s1 \<Rightarrow> copyEntries n s1 src dest rest))"

text \<open>
  \<^verbatim>\<open>
  async createBackup() {
    try {
      const backupDir = path.join(this.options.outputDir, 'backup');
      if (!fs.existsSync(backupDir)) { fs.mkdirSync(backupDir, { recursive: true }); }
      await this.copyDirectory(this.options.inputDir, backupDir);
    } catch (error) { spinner.fail(...); throw error; }
  }
  \<close>
\<close>

definition backupDir :: "config \<Rightarrow> path" where
  "backupDir cfg = outputDir cfg @ [''backup'']"

definition createBackup :: "nat \<Rightarrow> config \<Rightarrow> world \<Rightarrow> (outcome \<times> world) option" where
  "createBackup fuel cfg w =
     (case ensureExists (files w) (backupDir cfg) of
        Inl e \<Rightarrow> Some (Thrown e, w)
      | Inr s1 \<Rightarrow>
          (case copyDirectory fuel s1 (inputDir cfg) (backupDir cfg) of
             None \<Rightarrow> None
           | Some (r, s2) \<Rightarrow> Some (r, w\<lparr>files := s2\<rparr>)))"

subsection \<open>The run\<close>

definition andThen ::
  "outcome \<times> world \<Rightarrow> (world \<Rightarrow> outcome \<times> world) \<Rightarrow> outcome \<times> world" where
  "andThen r f = (case r of (Done, w) \<Rightarrow> f w | (Thrown e, w) \<Rightarrow> (Thrown e, w))"

definition whenSet :: "bool \<Rightarrow> (world \<Rightarrow> outcome \<times> world) \<Rightarrow> world \<Rightarrow> outcome \<times> world" where
  "whenSet flag f w = (if flag then f w else (Done, w))"

text \<open>The four category phases of \<open>optimize\<close>, in their fixed order.\<close>

definition categories :: "config \<Rightarrow> adapters \<Rightarrow> world \<Rightarrow> outcome \<times> world" where
  "categories cfg ad w =
     andThen (andThen (andThen
       (whenSet (html cfg) (processText cfg ad HTML) w)
       (whenSet (css cfg) (processText cfg ad CSS)))
       (whenSet (js cfg) (processText cfg ad JS)))
       (whenSet (images cfg) (processImages cfg ad))"

text \<open>
  \<^verbatim>\<open>
  async optimize() {
    const startTime = Date.now();
    try {
      if (!fs.existsSync(this.options.outputDir)) {
        fs.mkdirSync(this.options.outputDir, { recursive: true });
      }
      if (this.options.backup) { await this.createBackup(); }
      if (this.options.html) { await this.processHTML(); }
      if (this.options.css) { await this.processCSS(); }
      if (this.options.js) { await this.processJS(); }
      if (this.options.images) { await this.processImages(); }
      this.stats.timeElapsed = Date.now() - startTime;
      this.showResults();
    } catch (error) {
      console.error(..., error.message);
      throw error;
    }
  }
  \<close>
  \<open>startTime\<close> and \<open>endTime\<close> are the two readings of the clock.
\<close>

definition phases :: "nat \<Rightarrow> config \<Rightarrow> adapters \<Rightarrow> world \<Rightarrow> (outcome \<times> world) option" where
  "phases fuel cfg ad w =
     (case ensureExists (files w) (outputDir cfg) of
        Inl e \<Rightarrow> Some (Thrown e, w)
      | Inr s0 \<Rightarrow>
          (if backup cfg then
             (case createBackup fuel cfg (w\<lparr>files := s0\<rparr>) of
                None \<Rightarrow> None
              | Some (Thrown e, w1) \<Rightarrow> Some (Thrown e, w1)
              | Some (Done, w1) \<Rightarrow> Some (categories cfg ad w1))
           else Some (categories cfg ad (w\<lparr>files := s0\<rparr>))))"

definition finish :: "int \<Rightarrow> int \<Rightarrow> outcome \<times> world \<Rightarrow> outcome \<times> world" where
  "finish startTime endTime r =
     (case r of
        (Thrown e, w) \<Rightarrow> (Thrown e, w\<lparr>console := console w @ [RunError e]\<rparr>)
      | (Done, w) \<Rightarrow>
          (let st = (stats w)\<lparr>timeElapsed := endTime - startTime\<rparr>
           in (Done, w\<lparr>stats := st, console := console w @ [Report (showResults st)]\<rparr>)))"

definition optimize ::
  "nat \<Rightarrow> config \<Rightarrow> adapters \<Rightarrow> int \<Rightarrow> int \<Rightarrow> world \<Rightarrow> (outcome \<times> world) option" where
  "optimize fuel cfg ad startTime endTime w =
     map_option (finish startTime endTime) (phases fuel cfg ad w)"

subsection \<open>From the option object to the run\<close>

text \<open>
  \<open>optimize\<close> reads \<open>this.options\<close>: the two directories as path strings and
  the flags by their truthiness. An option object whose directories are not strings is
  outside the model.
\<close>

fun segments :: "string \<Rightarrow> string list" where
  "segments [] = [[]]"
| "segments (c # cs) =
     (if c = CHR ''/'' then [] # segments cs
      else (case segments cs of [] \<Rightarrow> [[c]] | seg # rest \<Rightarrow> (c # seg) # rest))"

definition splitPath :: "string \<Rightarrow> path" where
  "splitPath str = filter (\<lambda>seg. seg \<noteq> [] \<and> seg \<noteq> ''.'') (segments str)"

definition configOf :: "props \<Rightarrow> config option" where
  "configOf opts =
     (case (getProp opts ''inputDir'', getProp opts ''outputDir'') of
        (Str i, Str out) \<Rightarrow>
          Some \<lparr>inputDir = splitPath i,
                outputDir = splitPath out,
                html = truthy (getProp opts ''html''),
                css = truthy (getProp opts ''css''),
                js = truthy (getProp opts ''js''),
                images = truthy (getProp opts ''images''),
                backup = truthy (getProp opts ''backup''),
                generateWebP = truthy (getProp opts ''generateWebP'')\<rparr>
      | _ \<Rightarrow> None)"

text \<open>A fresh optimizer object: the world it starts from on a given file system.\<close>

definition newWorld :: "fs \<Rightarrow> world" where
  "newWorld s = \<lparr>files = s, stats = initialStats, console = []\<rparr>"

section \<open>Auxiliary notions for the statements\<close>

text \<open>
  A JavaScript object has each key once, at every depth; a property list with that
  shape stands for an object.
\<close>

fun wfVal :: "jsval \<Rightarrow> bool" where
  "wfVal (Obj kvs) = (distinct (map fst kvs) \<and> (\<forall>kv \<in> set kvs. wfVal (snd kv)))"
| "wfVal (Arr xs) = (\<forall>x \<in> set xs. wfVal x)"
| "wfVal v = True"

text \<open>
  No object that \<open>deepMerge\<close> visits as a source, the value itself and the plain
  objects nested in it outside arrays, has an own key \<open>hasOwnProperty\<close> or
  \<open>__proto__\<close>.
\<close>

fun mergeable :: "jsval \<Rightarrow> bool" where
  "mergeable (Obj kvs) =
     (\<not> hasKey kvs ''hasOwnProperty'' \<and> \<not> hasKey kvs ''__proto__'' \<and>
      (\<forall>kv \<in> set kvs. mergeable (snd kv)))"
| "mergeable v = True"

text \<open>
  The loop of \<open>deepMerge\<close> when every key is stored as an own property, as it is
  for such sources (lemma \<open>mergeProps_mergeOwn\<close>).
\<close>

fun mergeOwn :: "props \<Rightarrow> props \<Rightarrow> props" where
  "mergeOwn result [] = result"
| "mergeOwn result ((key, v) # rest) =
     mergeOwn
       (AList.update key
          (case v of
             Obj src \<Rightarrow> Obj (mergeOwn (spread (js_or (getProp result key) (Obj []))) src)
           | _ \<Rightarrow> v)
          result)
       rest"

text \<open>What \<open>deepMerge\<close> stores under a key whose source value is \<open>v\<close>.\<close>

definition mergedValue :: "props \<Rightarrow> string \<Rightarrow> jsval \<Rightarrow> jsval" where
  "mergedValue res k v =
     (case v of
        Obj s \<Rightarrow> Obj (mergeOwn (spread (js_or (getProp res k) (Obj []))) s)
      | _ \<Rightarrow> v)"

text \<open>Componentwise order on the counters of the statistics, the elapsed time aside.\<close>

definition stats_le :: "stats \<Rightarrow> stats \<Rightarrow> bool" where
  "stats_le a b \<longleftrightarrow>
     originalSize a \<le> originalSize b \<and> optimizedSize a \<le> optimizedSize b \<and>
     filesProcessed a \<le> filesProcessed b \<and> timeElapsed a = timeElapsed b"

text \<open>
  \<open>extends s t\<close>: whatever is a directory in \<open>s\<close> is one in \<open>t\<close>, and
  whatever is a regular file in \<open>s\<close> is one in \<open>t\<close> (with any content).
\<close>

definition extends :: "fs \<Rightarrow> fs \<Rightarrow> bool" where
  "extends s t \<longleftrightarrow>
     (\<forall>p. (lookup s p = Some Dir \<longrightarrow> lookup t p = Some Dir) \<and>
          (isFile (lookup s p) \<longrightarrow> isFile (lookup t p)))"


text \<open>
  The part of the tree at and below a directory, as listed, and the number of entries
  strictly below it.
\<close>

definition region :: "path \<Rightarrow> fs \<Rightarrow> fs" where
  "region d s = filter (\<lambda>(q, n). prefix d q) s"




text \<open>
  A second run against a first, whose tree at the end is \<open>E\<close>: where the first run
  has the tree \<open>s\<close>, the second has \<open>t\<close>. Both are well formed and list the same
  entries at and below the directory \<open>d\<close>, and every path is in \<open>t\<close> what it is in
  \<open>s\<close> or what it is in \<open>E\<close>.
\<close>

definition ahead :: "path \<Rightarrow> fs \<Rightarrow> fs \<Rightarrow> fs \<Rightarrow> bool" where
  "ahead d E s t \<longleftrightarrow>
     wf_fs s \<and> wf_fs t \<and> region d s = region d t \<and>
     (\<forall>p. lookup t p = lookup s p \<or> lookup t p = lookup E p)"

text \<open>
  The first run goes on from \<open>s\<close> to \<open>E\<close>, and ends in \<open>s\<close> when it throws.
\<close>

definition towards :: "fs \<Rightarrow> outcome \<Rightarrow> fs \<Rightarrow> bool" where
  "towards E r s \<longleftrightarrow> extends s E \<and> (r \<noteq> Done \<longrightarrow> lookup E = lookup s)"

text \<open>
  A phase that the second run repeats with the same outcome, and a phase that only adds
  to the tree.
\<close>

definition replayed :: "path \<Rightarrow> fs \<Rightarrow> (world \<Rightarrow> outcome \<times> world) \<Rightarrow> bool" where
  "replayed d E F \<longleftrightarrow>
     (\<forall>w v r w'. F w = (r, w') \<longrightarrow> ahead d E (files w) (files v) \<longrightarrow> towards E r (files w') \<longrightarrow>
        (\<exists>v'. F v = (r, v') \<and> ahead d E (files w') (files v')))"

definition growing :: "(world \<Rightarrow> outcome \<times> world) \<Rightarrow> bool" where
  "growing F \<longleftrightarrow> (\<forall>w r w'. F w = (r, w') \<longrightarrow> extends (files w) (files w'))"

section \<open>Example data\<close>

text \<open>Adapters that return their input, and a small site.\<close>

definition idAdapters :: adapters where
  "idAdapters =
     \<lparr>minifyHTML = (\<lambda>p c. Some c), minifyCSS = (\<lambda>p c. Some c), minifyJS = (\<lambda>p c. Some c),
      minJPEG = Some, minPNG = Some, minSVG = Some, minWebP = Some\<rparr>"

definition siteConfig :: config where
  "siteConfig =
     \<lparr>inputDir = [''src''], outputDir = [''dist''], html = True, css = True, js = True,
      images = True, backup = False, generateWebP = False\<rparr>"

definition smallSite :: fs where
  "smallSite = [([''src''], Dir), ([''src'', ''a.html''], File ''<p>'')]"

definition webpConfig :: config where
  "webpConfig = siteConfig\<lparr>generateWebP := True\<rparr>"

definition imageSite :: fs where
  "imageSite = [([''src''], Dir), ([''src'', ''logo.png''], File ''PNG'')]"

text \<open>Adapters whose WebP encoder rejects every input.\<close>

definition noWebP :: adapters where
  "noWebP = idAdapters\<lparr>minWebP := (\<lambda>c. None)\<rparr>"



text \<open>
  The small site with the backup switched on; a site whose backup directory holds a
  regular file where a directory of the input is to be copied; and an input directory
  that lies inside the backup directory.
\<close>

definition backupConfig :: config where
  "backupConfig = siteConfig\<lparr>backup := True\<rparr>"




text \<open>The default directories, and a site of one page in the working directory.\<close>

definition rootConfig :: config where
  "rootConfig =
     \<lparr>inputDir = [], outputDir = [''dist''], html = True, css = True, js = True,
      images = True, backup = False, generateWebP = False\<rparr>"

definition rootSite :: fs where
  "rootSite = [([''a.html''], File ''<p>'')]"


section \<open>Properties of the option objects\<close>

lemma getProp_update: "getProp (AList.update key v res) k = (if k = key then v else getProp res k)"
  by (simp add: getProp_def update_conv')

lemma mergeable_Cons:
  "mergeable (Obj ((key, v) # rest)) \<longleftrightarrow>
     key \<noteq> ''hasOwnProperty'' \<and> key \<noteq> ''__proto__'' \<and> mergeable v \<and> mergeable (Obj rest)"
  by (auto simp: hasKey_def)

lemma mergeProps_mergeOwn:
  "mergeable (Obj src) \<Longrightarrow> mergeProps res src = Returned (mergeOwn res src)"
proof (induction res src rule: mergeOwn.induct)
  case (1 result)
  then show ?case by simp
next
  case (2 result key v rest)
  from mergeable_Cons[THEN iffD1, OF "2.prems"]
  have k: "key \<noteq> ''__proto__''" and mv: "mergeable v" and mr: "mergeable (Obj rest)"
    by blast+
  show ?case
  proof (cases v)
    case (Obj src)
    from mv Obj have nh: "\<not> hasKey src ''hasOwnProperty''" by simp
    from "2.IH"(1)[OF Obj] mv Obj
    have n: "mergeProps (spread (js_or (getProp result key) (Obj []))) src =
        Returned (mergeOwn (spread (js_or (getProp result key) (Obj []))) src)"
      by simp
    from "2.IH"(2)[OF mr] Obj n nh k show ?thesis by simp
  qed (use "2.IH"(2)[OF mr] k in simp_all)
qed

lemma deepMerge_mergeOwn:
  "mergeable (Obj src) \<Longrightarrow> deepMerge target (Obj src) = Returned (mergeOwn (spread target) src)"
  by (simp add: deepMerge_def mergeProps_mergeOwn)

lemma mergeOwn_lookup:
  "distinct (map fst src) \<Longrightarrow>
   map_of (mergeOwn res src) k =
     (case map_of src k of
        None \<Rightarrow> map_of res k
      | Some v \<Rightarrow> Some (mergedValue res k v))"
proof (induction src arbitrary: res)
  case Nil
  then show ?case by simp
next
  case (Cons a src)
  obtain key v where a: "a = (key, v)" by (cases a)
  from Cons.prems a have d: "distinct (map fst src)" and nk: "map_of src key = None"
    by (auto simp: map_of_eq_None_iff)
  show ?case
  proof (cases "k = key")
    case True
    then show ?thesis
      using Cons.IH[OF d] nk a by (simp add: update_conv' mergedValue_def)
  next
    case False
    then show ?thesis
      using Cons.IH[OF d] a
      by (simp add: update_conv' mergedValue_def getProp_update split: option.splits cong: jsval.case_cong)
  qed
qed

lemma update_fresh: "k \<notin> fst ` set al \<Longrightarrow> AList.update k v al = al @ [(k, v)]"
  by (induction al) auto

lemma getProp_fresh: "k \<notin> fst ` set al \<Longrightarrow> getProp al k = Undefined"
  by (cases "map_of al k") (auto simp: getProp_def dest: map_of_SomeD intro: rev_image_eqI)

lemma mergeOwn_fresh:
  "distinct (map fst src) \<Longrightarrow> fst ` set src \<inter> fst ` set res = {} \<Longrightarrow>
   (\<forall>kv \<in> set src. wfVal (snd kv)) \<Longrightarrow> mergeOwn res src = res @ src"
proof (induction res src rule: mergeOwn.induct)
  case (1 result)
  then show ?case by simp
next
  case (2 result key v rest)
  from "2.prems" have fresh: "key \<notin> fst ` set result" by auto
  have val: "(case v of
             Obj src \<Rightarrow> Obj (mergeOwn (spread (js_or (getProp result key) (Obj []))) src)
           | _ \<Rightarrow> v) = v"
  proof (cases v)
    case (Obj src)
    have "mergeOwn (spread (js_or (getProp result key) (Obj []))) src = [] @ src"
      using "2.IH"(1)[OF Obj] "2.prems" Obj
      by (simp add: getProp_fresh[OF fresh] js_or_def)
    then show ?thesis using Obj by simp
  qed simp_all
  have "mergeOwn (AList.update key v result) rest = AList.update key v result @ rest"
    using "2.IH"(2) "2.prems" val by (auto simp: dom_update)
  then show ?case using val fresh by (simp add: update_fresh)
qed

lemma mergeable_lookup: "mergeable (Obj kvs) \<Longrightarrow> map_of kvs k = Some v \<Longrightarrow> mergeable v"
  using map_of_SomeD[of kvs k v] by auto

text \<open>
  Claim C4, as amended. Take an options object (each key once) in which neither the
  object nor a plain object nested in it outside arrays has an own key
  \<open>hasOwnProperty\<close> or \<open>__proto__\<close>. Then \<open>validateOptions\<close> returns,
  the deep merge of the options over the documented defaults, and for any key of the
  result: a key the user did not give keeps the target's value; a plain-object value is
  merged, by \<open>deepMerge\<close> again, which returns, into the target's value (or into
  \<open>{}\<close> if that is falsy); an array or a primitive replaces it. An unknown key
  passes through with the user's value unchanged. And \<open>validate({css: {level: 1}})\<close>
  has \<open>css.level = 1\<close> with every other default in place.
\<close>

theorem validateOptions_deep_merge:
  "(distinct (map fst opts) \<and> mergeable (Obj opts) \<longrightarrow>
      (\<exists>res. deepMerge (Obj target) (Obj opts) = Returned res \<and>
         (case map_of opts k of
            None \<Rightarrow> getProp res k = getProp target k
          | Some (Obj src) \<Rightarrow>
              (\<exists>m. deepMerge (js_or (getProp target k) (Obj [])) (Obj src) = Returned m \<and>
                   getProp res k = Obj m)
          | Some v \<Rightarrow> getProp res k = v))) \<and>
   validateOptions (Obj opts) = deepMerge (Obj defaults) (Obj opts) \<and>
   (distinct (map fst opts) \<and> mergeable (Obj opts) \<and> map_of opts k = Some v \<and> wfVal v \<and>
    k \<notin> fst ` set defaults \<longrightarrow>
      (\<exists>res. validateOptions (Obj opts) = Returned res \<and> getProp res k = v)) \<and>
   validateOptions (Obj [(''css'', Obj [(''level'', Num 1)])]) =
     Returned
       [(''inputDir'', Str ''./''), (''outputDir'', Str ''./dist''), (''html'', Bool True),
        (''css'', Obj [(''level'', Num 1)]), (''js'', Bool True), (''images'', Bool True),
        (''backup'', Bool False), (''verbose'', Bool False)]"
proof (intro conjI impI)
  assume a: "distinct (map fst opts) \<and> mergeable (Obj opts)"
  then have d: "distinct (map fst opts)" and m: "mergeable (Obj opts)" by simp_all
  let ?res = "mergeOwn target opts"
  have r: "deepMerge (Obj target) (Obj opts) = Returned ?res"
    using deepMerge_mergeOwn[OF m, of "Obj target"] by simp
  have "case map_of opts k of
            None \<Rightarrow> getProp ?res k = getProp target k
          | Some (Obj src) \<Rightarrow>
              (\<exists>m. deepMerge (js_or (getProp target k) (Obj [])) (Obj src) = Returned m \<and>
                   getProp ?res k = Obj m)
          | Some v \<Rightarrow> getProp ?res k = v"
  proof (cases "map_of opts k")
    case None
    then show ?thesis using mergeOwn_lookup[OF d, of target k] by (simp add: getProp_def)
  next
    case (Some v)
    show ?thesis
    proof (cases v)
      case (Obj src)
      from mergeable_lookup[OF m Some] Obj have "mergeable (Obj src)" by simp
      from deepMerge_mergeOwn[OF this, of "js_or (getProp target k) (Obj [])"]
      show ?thesis using Some Obj mergeOwn_lookup[OF d, of target k]
        by (simp add: getProp_def mergedValue_def)
    qed (use Some mergeOwn_lookup[OF d, of target k] in \<open>simp_all add: getProp_def mergedValue_def\<close>)
  qed
  with r show "\<exists>res. deepMerge (Obj target) (Obj opts) = Returned res \<and>
         (case map_of opts k of
            None \<Rightarrow> getProp res k = getProp target k
          | Some (Obj src) \<Rightarrow>
              (\<exists>m. deepMerge (js_or (getProp target k) (Obj [])) (Obj src) = Returned m \<and>
                   getProp res k = Obj m)
          | Some v \<Rightarrow> getProp res k = v)"
    by blast
next
  show "validateOptions (Obj opts) = deepMerge (Obj defaults) (Obj opts)"
    by (simp add: validateOptions_def)
next
  assume a: "distinct (map fst opts) \<and> mergeable (Obj opts) \<and> map_of opts k = Some v \<and> wfVal v \<and>
    k \<notin> fst ` set defaults"
  then have d: "distinct (map fst opts)" and mg: "mergeable (Obj opts)"
    and m: "map_of opts k = Some v" and w: "wfVal v" and f: "k \<notin> fst ` set defaults"
    by auto
  have "mergedValue defaults k v = v"
  proof (cases v)
    case (Obj src)
    have "mergeOwn [] src = [] @ src"
      using w Obj by (intro mergeOwn_fresh) auto
    then show ?thesis using Obj by (simp add: mergedValue_def getProp_fresh[OF f] js_or_def)
  qed (simp_all add: mergedValue_def)
  then have "getProp (mergeOwn defaults opts) k = v"
    using mergeOwn_lookup[OF d, of defaults k] m by (simp add: getProp_def)
  moreover have "validateOptions (Obj opts) = Returned (mergeOwn defaults opts)"
    using deepMerge_mergeOwn[OF mg, of "Obj defaults"] by (simp add: validateOptions_def)
  ultimately show "\<exists>res. validateOptions (Obj opts) = Returned res \<and> getProp res k = v" by blast
next
  show "validateOptions (Obj [(''css'', Obj [(''level'', Num 1)])]) =
     Returned
       [(''inputDir'', Str ''./''), (''outputDir'', Str ''./dist''), (''html'', Bool True),
        (''css'', Obj [(''level'', Num 1)]), (''js'', Bool True), (''images'', Bool True),
        (''backup'', Bool False), (''verbose'', Bool False)]"
    by code_simp
qed

theorem validateOptions_deep_merge_witness:
  "distinct (map fst [(''css'', Obj [(''level'', Num 1)]), (''plugins'', Arr [Str ''x'']), (''theme'', Obj [(''dark'', Bool True)])]) \<and>
   mergeable (Obj [(''css'', Obj [(''level'', Num 1)]), (''plugins'', Arr [Str ''x'']), (''theme'', Obj [(''dark'', Bool True)])]) \<and>
   validateOptions (Obj [(''css'', Obj [(''level'', Num 1)]), (''plugins'', Arr [Str ''x'']), (''theme'', Obj [(''dark'', Bool True)])]) =
     Returned
       [(''inputDir'', Str ''./''), (''outputDir'', Str ''./dist''), (''html'', Bool True),
        (''css'', Obj [(''level'', Num 1)]), (''js'', Bool True), (''images'', Bool True),
        (''backup'', Bool False), (''verbose'', Bool False),
        (''plugins'', Arr [Str ''x'']), (''theme'', Obj [(''dark'', Bool True)])] \<and>
   getProp
       [(''inputDir'', Str ''./''), (''outputDir'', Str ''./dist''), (''html'', Bool True),
        (''css'', Obj [(''level'', Num 1)]), (''js'', Bool True), (''images'', Bool True),
        (''backup'', Bool False), (''verbose'', Bool False),
        (''plugins'', Arr [Str ''x'']), (''theme'', Obj [(''dark'', Bool True)])] ''theme'' =
     Obj [(''dark'', Bool True)]"
proof -
  let ?opts = "[(''css'', Obj [(''level'', Num 1)]), (''plugins'', Arr [Str ''x'']), (''theme'', Obj [(''dark'', Bool True)])]"
  let ?res = "[(''inputDir'', Str ''./''), (''outputDir'', Str ''./dist''), (''html'', Bool True),
        (''css'', Obj [(''level'', Num 1)]), (''js'', Bool True), (''images'', Bool True),
        (''backup'', Bool False), (''verbose'', Bool False),
        (''plugins'', Arr [Str ''x'']), (''theme'', Obj [(''dark'', Bool True)])]"
  have d: "distinct (map fst ?opts)" by simp
  have mg: "mergeable (Obj ?opts)" by (simp add: hasKey_def)
  have m: "map_of ?opts ''theme'' = Some (Obj [(''dark'', Bool True)])" by simp
  have w: "wfVal (Obj [(''dark'', Bool True)])" by simp
  have f: "''theme'' \<notin> fst ` set defaults" by (simp add: defaults_def)
  have run: "validateOptions (Obj ?opts) = Returned ?res" by code_simp
  from validateOptions_deep_merge[of ?opts defaults "''theme''" "Obj [(''dark'', Bool True)]",
      THEN conjunct2, THEN conjunct2, THEN conjunct1, rule_format, OF conjI[OF d conjI[OF mg conjI[OF m conjI[OF w f]]]]]
  obtain res where "validateOptions (Obj ?opts) = Returned res"
    and g: "getProp res ''theme'' = Obj [(''dark'', Bool True)]"
    by blast
  with run have "getProp ?res ''theme'' = Obj [(''dark'', Bool True)]" by simp
  with d mg run show ?thesis by blast
qed

text \<open>
  The claim as stated is about every options object. An options object with an own key
  \<open>hasOwnProperty\<close>, at the top or in a nested plain object, makes
  \<open>validateOptions\<close> throw; a key \<open>__proto__\<close> with a primitive value is
  dropped, and with an object as value it replaces the prototype of the result instead
  of passing through.
\<close>

theorem validateOptions_reserved_keys:
  "validateOptions (Obj [(''hasOwnProperty'', Num 1)]) = TypeError \<and>
   validateOptions (Obj [(''css'', Obj [(''hasOwnProperty'', Bool True)])]) = TypeError \<and>
   validateOptions (Obj [(''__proto__'', Num 1)]) = Returned defaults \<and>
   validateOptions (Obj [(''__proto__'', Obj [(''x'', Num 1)])]) = ForeignPrototype"
  by code_simp

section \<open>The savings figures\<close>

lemma roundScaled_close: "\<bar>of_int (roundScaled 2 x) / 100 - x\<bar> \<le> (1 / 200 :: rat)"
proof -
  have key: "\<bar>of_int \<lfloor>y * 100 + 1 / 2\<rfloor> / 100 - y\<bar> \<le> (1 / 200 :: rat)" for y :: rat
  proof -
    define n where "n = \<lfloor>y * 100 + 1 / 2\<rfloor>"
    have "of_int n \<le> y * 100 + 1 / 2" and "y * 100 + 1 / 2 < of_int n + 1"
      unfolding n_def by linarith+
    then have "of_int n / 100 - y \<le> 1 / 200" and "y - of_int n / 100 \<le> 1 / 200"
      by linarith+
    then show ?thesis unfolding n_def[symmetric] by (intro abs_leI) linarith+
  qed
  show ?thesis
  proof (cases "0 \<le> x")
    case True
    then show ?thesis using key[of x] by (simp add: roundScaled_def)
  next
    case False
    have "of_int (- \<lfloor>- x * 100 + 1 / 2\<rfloor>) / 100 - x = - (of_int \<lfloor>- x * 100 + 1 / 2\<rfloor> / 100 - (- x))"
      by simp
    then have "\<bar>of_int (- \<lfloor>- x * 100 + 1 / 2\<rfloor>) / 100 - x\<bar> = \<bar>of_int \<lfloor>- x * 100 + 1 / 2\<rfloor> / 100 - (- x)\<bar>"
      by (simp only: abs_minus_cancel)
    with False show ?thesis using key[of "- x"] by (simp add: roundScaled_def)
  qed
qed

text \<open>
  \<open>calculateCompressionRatio\<close> does what the specification says of the savings:
  the saved bytes are the difference, the percentage is 0 when nothing was read, and
  otherwise a number of hundredths within half a hundredth of the exact percentage.
\<close>

lemma calculateCompressionRatio_savings:
  "savedBytes (calculateCompressionRatio orig opt) = orig - opt \<and>
   (orig \<le> 0 \<longrightarrow> savedPercentage (calculateCompressionRatio orig opt) = Finite 0) \<and>
   (0 < orig \<longrightarrow>
      (\<exists>n. savedPercentage (calculateCompressionRatio orig opt) = Finite (of_int n / 100) \<and>
           \<bar>of_int n / 100 - 100 * of_int (orig - opt) / of_int orig\<bar> \<le> (1 / 200 :: rat)))"
proof (intro conjI impI)
  assume pos: "0 < orig"
  let ?x = "of_int (orig - opt) / of_int orig * (100 :: rat)"
  have "savedPercentage (calculateCompressionRatio orig opt) = Finite (of_int (roundScaled 2 ?x) / 100)"
    using pos by (simp add: calculateCompressionRatio_def js_div_def)
  moreover have "\<bar>of_int (roundScaled 2 ?x) / 100 - 100 * of_int (orig - opt) / of_int orig\<bar> \<le> (1 / 200 :: rat)"
    using roundScaled_close[of ?x] by (simp add: mult.commute)
  ultimately show "\<exists>n. savedPercentage (calculateCompressionRatio orig opt) = Finite (of_int n / 100) \<and>
           \<bar>of_int n / 100 - 100 * of_int (orig - opt) / of_int orig\<bar> \<le> (1 / 200 :: rat)"
    by blast
qed (simp_all add: calculateCompressionRatio_def Let_def)

lemma calculateCompressionRatio_savings_witness:
  "(0 :: int) < 800 \<and> savedBytes (calculateCompressionRatio 800 450) = 350 \<and>
   savedPercentage (calculateCompressionRatio 800 450) = Finite (4375 / 100)"
proof -
  have "\<lfloor>8751 / 2 :: rat\<rfloor> = 4375" by (simp add: floor_unique)
  then show ?thesis
    using calculateCompressionRatio_savings[of 800 450]
    by (simp add: calculateCompressionRatio_def js_div_def roundScaled_def)
qed

text \<open>The report prints the same percentage whenever some bytes were read.\<close>

lemma showResults_agrees:
  "0 < originalSize st \<Longrightarrow>
   r_savedBytes (showResults st) = savedBytes (calculateCompressionRatio (originalSize st) (optimizedSize st)) \<and>
   parseFloat (r_savedPercentage (showResults st)) =
     savedPercentage (calculateCompressionRatio (originalSize st) (optimizedSize st))"
  by (simp add: showResults_def calculateCompressionRatio_def js_div_def)

text \<open>
  Claim C3. The claim holds of \<open>calculateCompressionRatio\<close> (lemma
  \<open>calculateCompressionRatio_savings\<close>), but not of the figures of the end-of-run
  report: \<open>showResults\<close> divides without the guard, so a run that read no bytes
  prints \<open>NaN\<close> as its percentage where the claim, and the guarded function,
  give 0. The run below is one over a directory without any matching file.
\<close>

theorem showResults_percentage_of_empty_run:
  "r_savedPercentage (showResults initialStats) = TextNaN \<and>
   savedPercentage (calculateCompressionRatio 0 0) = Finite 0 \<and>
   map_option (\<lambda>(r, w). (r, console w))
     (optimize 2 siteConfig idAdapters 0 1 (newWorld [([''src''], Dir)])) =
     Some (Done,
       [Report \<lparr>r_filesProcessed = 0, r_originalSize = 0, r_optimizedSize = 0, r_savedBytes = 0,
                r_savedPercentage = TextNaN, r_timeElapsed = 1\<rparr>])"
  by code_simp

section \<open>The default of the backup option\<close>

text \<open>
  Claim C5. Without a \<open>backup\<close> field, \<open>validateOptions\<close> gives
  \<open>backup = false\<close>, but the constructor of the optimizer gives \<open>true\<close>
  (\<open>options.backup !== false\<close>), and a run of an optimizer constructed from the
  two directories alone copies the input tree under \<open>dist/backup\<close>.
\<close>

theorem constructor_backup_default:
  "validateOptions (Obj []) = Returned defaults \<and>
   getProp defaults ''backup'' = Bool False \<and>
   getProp (constructorOptions []) ''backup'' = Bool True \<and>
   configOf (constructorOptions [(''inputDir'', Str ''./src''), (''outputDir'', Str ''./dist'')]) =
     Some (siteConfig\<lparr>backup := True\<rparr>) \<and>
   map_option (\<lambda>(r, w). (r, files w))
     (optimize 2 (siteConfig\<lparr>backup := True\<rparr>) idAdapters 0 1 (newWorld smallSite)) =
     Some (Done,
       [([''src''], Dir), ([''src'', ''a.html''], File ''<p>''), ([''dist''], Dir),
        ([''dist'', ''backup''], Dir), ([''dist'', ''backup'', ''a.html''], File ''<p>''),
        ([''dist'', ''a.html''], File ''<p>'')])"
  by code_simp

section \<open>The statistics of a run\<close>

lemma getFileSize_nonneg: "0 \<le> getFileSize s p"
  by (simp add: getFileSize_def statSync_def split: option.splits node.splits)

lemma stats_le_refl: "stats_le a a"
  by (simp add: stats_le_def)

lemma stats_le_trans: "stats_le a b \<Longrightarrow> stats_le b c \<Longrightarrow> stats_le a c"
  by (auto simp: stats_le_def)

lemma stats_le_updateStats: "0 \<le> x \<Longrightarrow> 0 \<le> y \<Longrightarrow> stats_le st (updateStats st x y)"
  by (simp add: stats_le_def updateStats_def)

lemma processTextFile_stats:
  "processTextFile cfg ad cat file w = (r, w') \<Longrightarrow> stats_le (stats w) (stats w')"
  by (auto simp: processTextFile_def Let_def stats_le_refl stats_le_updateStats getFileSize_nonneg
      split: sum.splits)

lemma processImageFile_stats:
  "processImageFile cfg ad file w = (r, w') \<Longrightarrow> stats_le (stats w) (stats w')"
  by (auto simp: processImageFile_def Let_def stats_le_refl stats_le_updateStats getFileSize_nonneg
      split: sum.splits prod.splits outcome.splits)

text \<open>
  A relation between worlds that is reflexive, transitive and established by every
  step of a loop holds between the start and the end of the loop, and of the four
  category phases.
\<close>

lemma andThenE:
  assumes "andThen x f = (r, w')"
  obtains e where "x = (Thrown e, w')" "r = Thrown e"
  | w1 where "x = (Done, w1)" "f w1 = (r, w')"
  using assms by (cases x) (auto simp: andThen_def split: outcome.splits)

lemma forEachFile_rel:
  assumes refl: "\<And>w. R w w"
    and trans: "\<And>a b c. R a b \<Longrightarrow> R b c \<Longrightarrow> R a c"
    and step: "\<And>file w r w'. body file w = (r, w') \<Longrightarrow> R w w'"
  shows "forEachFile body fs w = (r, w') \<Longrightarrow> R w w'"
proof (induction fs arbitrary: w)
  case Nil
  then show ?case by (simp add: refl)
next
  case (Cons f fs)
  obtain r1 w1 where b: "body f w = (r1, w1)" by (cases "body f w")
  show ?case
  proof (cases r1)
    case Done
    with Cons b show ?thesis by (auto intro: trans step)
  next
    case (Thrown e)
    with Cons.prems b show ?thesis by (auto intro: step)
  qed
qed

lemma whenSet_rel:
  assumes refl: "\<And>w. R w w"
    and f: "\<And>w r w'. f w = (r, w') \<Longrightarrow> R w w'"
  shows "whenSet b f w = (r, w') \<Longrightarrow> R w w'"
  by (auto simp: whenSet_def refl f split: if_splits)

lemma categories_rel:
  assumes refl: "\<And>w. R w w"
    and trans: "\<And>a b c. R a b \<Longrightarrow> R b c \<Longrightarrow> R a c"
    and tstep: "\<And>cat file w r w'. processTextFile cfg ad cat file w = (r, w') \<Longrightarrow> R w w'"
    and istep: "\<And>file w r w'. processImageFile cfg ad file w = (r, w') \<Longrightarrow> R w w'"
    and run: "categories cfg ad w = (r, w')"
  shows "R w w'"
proof -
  have T: "\<And>cat b w r w'. whenSet b (processText cfg ad cat) w = (r, w') \<Longrightarrow> R w w'"
    unfolding processText_def
    by (erule whenSet_rel[OF refl, rotated]) (erule forEachFile_rel[OF refl trans tstep, rotated -1])
  have I: "\<And>b w r w'. whenSet b (processImages cfg ad) w = (r, w') \<Longrightarrow> R w w'"
    unfolding processImages_def
    by (erule whenSet_rel[OF refl, rotated]) (erule forEachFile_rel[OF refl trans istep, rotated -1])
  from run show ?thesis
    unfolding categories_def
    by (elim andThenE) (auto dest!: T I intro: trans)
qed

lemma categories_stats: "categories cfg ad w = (r, w') \<Longrightarrow> stats_le (stats w) (stats w')"
  by (rule categories_rel[where R = "\<lambda>a b. stats_le (stats a) (stats b)"])
     (auto intro: stats_le_refl stats_le_trans processTextFile_stats processImageFile_stats)

lemma createBackup_stats: "createBackup fuel cfg w = Some (r, w') \<Longrightarrow> stats w' = stats w"
  by (auto simp: createBackup_def split: sum.splits option.splits)

lemma phases_stats: "phases fuel cfg ad w = Some (r, w') \<Longrightarrow> stats_le (stats w) (stats w')"
  by (auto simp: phases_def stats_le_refl split: sum.splits option.splits if_splits outcome.splits
      dest!: createBackup_stats categories_stats)

text \<open>
  Claim C9, as amended. \<open>updateStats\<close> adds the two sizes to the totals and one to
  the file count, and leaves the elapsed time alone. Over a run of \<open>optimize\<close>,
  whatever its outcome, none of the three counters decreases: the sizes recorded are
  those of \<open>getFileSize\<close>, which are not negative. The elapsed time is no counter:
  a run that completes overwrites it with the difference of the two clock readings, and
  a run that throws leaves it as it was.
\<close>

theorem runstats_monotone:
  "originalSize (updateStats st a b) = originalSize st + a \<and>
   optimizedSize (updateStats st a b) = optimizedSize st + b \<and>
   filesProcessed (updateStats st a b) = filesProcessed st + 1 \<and>
   timeElapsed (updateStats st a b) = timeElapsed st \<and>
   (optimize fuel cfg ad startTime endTime w = Some (r, w') \<longrightarrow>
      originalSize (stats w) \<le> originalSize (stats w') \<and>
      optimizedSize (stats w) \<le> optimizedSize (stats w') \<and>
      filesProcessed (stats w) \<le> filesProcessed (stats w') \<and>
      timeElapsed (stats w') = (if r = Done then endTime - startTime else timeElapsed (stats w)))"
proof (intro conjI impI)
  assume run: "optimize fuel cfg ad startTime endTime w = Some (r, w')"
  then obtain r1 w1 where p: "phases fuel cfg ad w = Some (r1, w1)"
    and f: "finish startTime endTime (r1, w1) = (r, w')"
    by (auto simp: optimize_def)
  from phases_stats[OF p] have le: "stats_le (stats w) (stats w1)" .
  from f le show "originalSize (stats w) \<le> originalSize (stats w')"
    by (cases r1) (auto simp: finish_def stats_le_def Let_def)
  from f le show "optimizedSize (stats w) \<le> optimizedSize (stats w')"
    by (cases r1) (auto simp: finish_def stats_le_def Let_def)
  from f le show "filesProcessed (stats w) \<le> filesProcessed (stats w')"
    by (cases r1) (auto simp: finish_def stats_le_def Let_def)
  from f le show "timeElapsed (stats w') = (if r = Done then endTime - startTime else timeElapsed (stats w))"
    by (cases r1) (auto simp: finish_def stats_le_def Let_def)
qed (simp_all add: updateStats_def)

theorem runstats_monotone_witness:
  "map_option (\<lambda>(r, w). (r, stats w)) (optimize 2 siteConfig idAdapters 0 1 (newWorld smallSite)) =
     Some (Done, \<lparr>originalSize = 3, optimizedSize = 3, filesProcessed = 1, timeElapsed = 1\<rparr>) \<and>
   originalSize (stats (newWorld smallSite)) \<le> 3 \<and>
   filesProcessed (stats (newWorld smallSite)) \<le> 1 \<and>
   (1 :: int) = 1 - 0"
proof -
  have run: "optimize 2 siteConfig idAdapters 0 1 (newWorld smallSite) =
      Some (Done, \<lparr>files = smallSite @ [([''dist''], Dir), ([''dist'', ''a.html''], File ''<p>'')],
                   stats = \<lparr>originalSize = 3, optimizedSize = 3, filesProcessed = 1, timeElapsed = 1\<rparr>,
                   console = [Report \<lparr>r_filesProcessed = 1, r_originalSize = 3, r_optimizedSize = 3,
                     r_savedBytes = 0, r_savedPercentage = Decimal 2 0, r_timeElapsed = 1\<rparr>]\<rparr>)"
    by code_simp
  from runstats_monotone[of initialStats 0 0 2 siteConfig idAdapters 0 1 "newWorld smallSite", THEN conjunct2,
      THEN conjunct2, THEN conjunct2, THEN conjunct2, rule_format, OF run]
  show ?thesis unfolding run by (simp add: newWorld_def initialStats_def)
qed

text \<open>
  The claim as stated counts the elapsed time among the fields that never decrease. It
  does decrease: the statistics belong to the optimizer object, and a second call of
  \<open>optimize\<close> on the object of a run that took 5000 ms overwrites that figure with
  its own 1 ms, while the three counters go on from where they were.
\<close>

theorem elapsed_time_decreases:
  "map_option (\<lambda>(r, w). (r, stats w)) (optimize 2 siteConfig idAdapters 0 5000 (newWorld smallSite)) =
     Some (Done, \<lparr>originalSize = 3, optimizedSize = 3, filesProcessed = 1, timeElapsed = 5000\<rparr>) \<and>
   map_option (\<lambda>(r, w). (r, stats w))
     (Option.bind (optimize 2 siteConfig idAdapters 0 5000 (newWorld smallSite))
        (\<lambda>(r, w1). optimize 2 siteConfig idAdapters 5000 5001 w1)) =
     Some (Done, \<lparr>originalSize = 6, optimizedSize = 6, filesProcessed = 2, timeElapsed = 1\<rparr>)"
  by code_simp

section \<open>The file system operations\<close>

subsection \<open>Lookups after the primitive operations\<close>

lemma lookup_Nil [simp]: "lookup s [] = Some Dir"
  by (simp add: lookup_def)

lemma lookup_update:
  "q \<noteq> [] \<Longrightarrow> lookup (AList.update q n s) p = (if p = q then Some n else lookup s p)"
  by (simp add: lookup_def update_conv')

lemma lookup_ensureDir:
  "lookup (ensureDir q s) p = (if p = q \<and> lookup s q = None then Some Dir else lookup s p)"
  by (cases "q = []") (auto simp: ensureDir_def lookup_update)

lemma lookup_fold_ensureDir:
  "lookup (fold ensureDir qs s) p =
     (if p \<in> set qs \<and> lookup s p = None then Some Dir else lookup s p)"
  by (induction qs arbitrary: s) (auto simp: lookup_ensureDir)

lemma isFile_iff: "isFile n \<longleftrightarrow> (\<exists>c. n = Some (File c))"
  by (cases n rule: isFile.cases) auto

lemma find_SomeD: "find P xs = Some x \<Longrightarrow> P x \<and> x \<in> set xs"
  by (induction xs) (auto split: if_splits)

lemma mkdirSync_Inr_iff:
  "mkdirSync s p = Inr s' \<longleftrightarrow>
     (\<forall>q. prefix q p \<longrightarrow> \<not> isFile (lookup s q)) \<and> s' = fold ensureDir (prefixes p) s"
  by (auto simp: mkdirSync_def find_None_iff split: option.splits dest!: find_SomeD)


lemma lookup_mkdirSync:
  "mkdirSync s p = Inr s' \<Longrightarrow>
   lookup s' q = (if prefix q p \<and> lookup s q = None then Some Dir else lookup s q)"
  by (simp add: mkdirSync_Inr_iff lookup_fold_ensureDir)

lemma mkdirSync_dirs:
  assumes "mkdirSync s p = Inr s'" "prefix q p"
  shows "lookup s' q = Some Dir"
proof -
  from assms have "\<not> isFile (lookup s q)" by (simp add: mkdirSync_Inr_iff)
  then show ?thesis
    using assms by (cases "lookup s q" rule: isFile.cases) (auto simp: lookup_mkdirSync)
qed

lemma writeFileSync_Inr_iff:
  "writeFileSync s p c = Inr s' \<longleftrightarrow>
     p \<noteq> [] \<and> lookup s (butlast p) = Some Dir \<and> lookup s p \<noteq> Some Dir \<and>
     s' = AList.update p (File c) s"
  by (auto simp: writeFileSync_def split: option.splits node.splits)

lemma lookup_writeFileSync:
  "writeFileSync s p c = Inr s' \<Longrightarrow>
   lookup s' q = (if q = p then Some (File c) else lookup s q)"
  by (simp add: writeFileSync_Inr_iff lookup_update)

lemma readFileSync_Inr_iff: "readFileSync s p = Inr c \<longleftrightarrow> lookup s p = Some (File c)"
  by (auto simp: readFileSync_def split: option.splits node.splits)

lemma ensureExists_cases:
  assumes "ensureExists s d = Inr s'"
  obtains "lookup s d \<noteq> None" "s' = s" | "lookup s d = None" "mkdirSync s d = Inr s'"
  using assms by (auto simp: ensureExists_def existsSync_def split: if_splits)


subsection \<open>Well-formedness is kept\<close>

lemma wf_fs_lookup_butlast: "wf_fs s \<Longrightarrow> lookup s p \<noteq> None \<Longrightarrow> lookup s (butlast p) = Some Dir"
  by (simp add: wf_fs_def)

lemma wf_fs_prefix_Dir:
  assumes "wf_fs s" "lookup s p \<noteq> None" "strict_prefix q p"
  shows "lookup s q = Some Dir"
  using assms(2,3)
proof (induction p rule: rev_induct)
  case Nil
  then show ?case by simp
next
  case (snoc x xs)
  from snoc.prems(1) have xs: "lookup s xs = Some Dir"
    using wf_fs_lookup_butlast[OF assms(1), of "xs @ [x]"] by simp
  from snoc.prems(2) have "q = xs \<or> strict_prefix q xs"
    by (auto simp: strict_prefix_def)
  then show ?case using xs snoc.IH by auto
qed

lemma wf_fs_update:
  assumes "wf_fs s" "q \<noteq> []" "lookup s (butlast q) = Some Dir"
    "n = Dir \<or> (\<forall>p. butlast p = q \<longrightarrow> p \<noteq> [] \<longrightarrow> lookup s p = None)"
    "lookup s q = Some Dir \<longrightarrow> n = Dir"
  shows "wf_fs (AList.update q n s)"
  unfolding wf_fs_def
proof (intro conjI allI impI)
  show "distinct (map fst (AList.update q n s))"
    using assms(1) by (simp add: wf_fs_def distinct_update)
next
  fix p assume ex: "lookup (AList.update q n s) p \<noteq> None"
  show "lookup (AList.update q n s) (butlast p) = Some Dir"
  proof (cases "p = q")
    case True
    have "butlast q \<noteq> q" using assms(2) by (cases q rule: rev_cases) auto
    then show ?thesis using True assms by (simp add: lookup_update)
  next
    case False
    with ex have exs: "lookup s p \<noteq> None" using assms(2) by (simp add: lookup_update)
    then have par: "lookup s (butlast p) = Some Dir" by (rule wf_fs_lookup_butlast[OF assms(1)])
    show ?thesis
    proof (cases "butlast p = q")
      case True
      have "p \<noteq> []" using True assms(2) by auto
      with True exs assms(4) par have "n = Dir" using assms(5) by auto
      then show ?thesis using True assms(2) by (simp add: lookup_update)
    next
      case False
      then show ?thesis using par assms(2) by (simp add: lookup_update)
    qed
  qed
qed

lemma wf_fs_ensureDir:
  "wf_fs s \<Longrightarrow> lookup s (butlast q) = Some Dir \<Longrightarrow> wf_fs (ensureDir q s)"
  by (cases "q = []") (auto simp: ensureDir_def intro: wf_fs_update)

lemma wf_fs_mkdirs:
  assumes "wf_fs s" "\<forall>q. prefix q p \<longrightarrow> \<not> isFile (lookup s q)"
  shows "wf_fs (fold ensureDir (prefixes p) s)"
  using assms(2)
proof (induction p rule: rev_induct)
  case Nil
  then show ?case using assms(1) by (simp add: ensureDir_def)
next
  case (snoc x xs)
  let ?s = "fold ensureDir (prefixes xs) s"
  have wf: "wf_fs ?s" using snoc by simp
  have "\<not> isFile (lookup s xs)" using snoc.prems by simp
  then have "lookup ?s xs = Some Dir"
    by (cases "lookup s xs" rule: isFile.cases) (auto simp: lookup_fold_ensureDir)
  then show ?case using wf by (simp add: wf_fs_ensureDir)
qed

lemma wf_fs_mkdirSync: "wf_fs s \<Longrightarrow> mkdirSync s p = Inr s' \<Longrightarrow> wf_fs s'"
  by (simp add: mkdirSync_Inr_iff wf_fs_mkdirs)

lemma wf_fs_ensureExists: "wf_fs s \<Longrightarrow> ensureExists s p = Inr s' \<Longrightarrow> wf_fs s'"
  by (erule ensureExists_cases) (auto intro: wf_fs_mkdirSync)

lemma wf_fs_writeFileSync:
  assumes "wf_fs s" "writeFileSync s p c = Inr s'"
  shows "wf_fs s'"
proof -
  from assms(2) have p: "p \<noteq> []" and par: "lookup s (butlast p) = Some Dir"
    and nd: "lookup s p \<noteq> Some Dir" and s': "s' = AList.update p (File c) s"
    by (simp_all add: writeFileSync_Inr_iff)
  have "\<forall>r. butlast r = p \<longrightarrow> r \<noteq> [] \<longrightarrow> lookup s r = None"
  proof (intro allI impI)
    fix r assume "butlast r = p" "r \<noteq> []"
    show "lookup s r = None"
    proof (rule ccontr)
      assume "lookup s r \<noteq> None"
      then have "lookup s (butlast r) = Some Dir" by (rule wf_fs_lookup_butlast[OF assms(1)])
      with \<open>butlast r = p\<close> nd show False by simp
    qed
  qed
  then show ?thesis unfolding s' using assms(1) p par nd by (intro wf_fs_update) auto
qed

subsection \<open>Kinds never change\<close>

lemma extends_refl: "extends s s"
  by (simp add: extends_def)

lemma extends_trans: "extends a b \<Longrightarrow> extends b c \<Longrightarrow> extends a c"
  by (simp add: extends_def)

lemma extends_mkdirSync:
  assumes "mkdirSync s p = Inr s'"
  shows "extends s s'"
  unfolding extends_def by (auto simp: lookup_mkdirSync[OF assms] isFile_iff)

lemma extends_ensureExists: "ensureExists s p = Inr s' \<Longrightarrow> extends s s'"
  by (erule ensureExists_cases) (auto intro: extends_refl extends_mkdirSync)

lemma extends_writeFileSync:
  assumes "writeFileSync s p c = Inr s'"
  shows "extends s s'"
proof -
  from assms have "p \<noteq> []" "lookup s p \<noteq> Some Dir" "s' = AList.update p (File c) s"
    by (simp_all add: writeFileSync_Inr_iff)
  then show ?thesis by (auto simp: extends_def lookup_update isFile_iff)
qed

section \<open>The steps of the category loops\<close>

subsection \<open>The steps, taken apart\<close>

lemma processTextFile_DoneE:
  assumes "processTextFile cfg ad cat file w = (Done, w')"
  obtains s1 c where
    "ensureExists (files w) (butlast (outputDir cfg @ file)) = Inr s1"
    "optimizeText ad cat s1 (inputDir cfg @ file) = Inr c"
    "writeFileSync s1 (outputDir cfg @ file) c = Inr (files w')"
    "w' = w\<lparr>files := files w',
             stats := updateStats (stats w) (getFileSize s1 (inputDir cfg @ file))
                        (getFileSize (files w') (outputDir cfg @ file))\<rparr>"
  using assms
  by (auto simp: processTextFile_def Let_def split: sum.splits)

lemma processTextFile_ThrownE:
  assumes "processTextFile cfg ad cat file w = (Thrown e, w')"
  obtains "ensureExists (files w) (butlast (outputDir cfg @ file)) = Inl e" "w' = w"
  | s1 where "ensureExists (files w) (butlast (outputDir cfg @ file)) = Inr s1"
      "optimizeText ad cat s1 (inputDir cfg @ file) = Inl e" "w' = w\<lparr>files := s1\<rparr>"
  | s1 c where "ensureExists (files w) (butlast (outputDir cfg @ file)) = Inr s1"
      "optimizeText ad cat s1 (inputDir cfg @ file) = Inr c"
      "writeFileSync s1 (outputDir cfg @ file) c = Inl e" "w' = w\<lparr>files := s1\<rparr>"
  using assms
  by (auto simp: processTextFile_def Let_def split: sum.splits)

lemma generateWebPFile_cases:
  assumes "generateWebPFile ad s inp out = (s', evs)"
  obtains d where "imagemin (minWebP ad) s inp = Inr d"
      "writeFileSync s (webpPathOf out) d = Inr s'" "evs = []"
  | e where "imagemin (minWebP ad) s inp = Inl e" "s' = s" "evs = [WebPWarning e]"
  | d e where "imagemin (minWebP ad) s inp = Inr d"
      "writeFileSync s (webpPathOf out) d = Inl e" "s' = s" "evs = [WebPWarning e]"
proof (cases "imagemin (minWebP ad) s inp")
  case (Inl e)
  with assms show ?thesis by (intro that(2)[of e]) (simp_all add: generateWebPFile_def)
next
  case (Inr d)
  show ?thesis
  proof (cases "writeFileSync s (webpPathOf out) d")
    case (Inl e)
    with assms Inr show ?thesis by (intro that(3)[of d e]) (simp_all add: generateWebPFile_def)
  next
    case r: (Inr s2)
    with assms Inr show ?thesis by (intro that(1)[of d]) (simp_all add: generateWebPFile_def)
  qed
qed

lemma optimizeImages_DoneE:
  assumes "optimizeImages ad g s inp out = (Done, s', evs)"
  obtains s1 buf s2 where
    "ensureExists s (butlast out) = Inr s1"
    "compressImage ad s1 (extname inp) inp = Inr buf"
    "writeFileSync s1 out buf = Inr s2"
    "g \<and> \<not> containsText ''webp'' (extname inp)"
    "generateWebPFile ad s2 inp out = (s', evs)"
  | s1 buf where
    "ensureExists s (butlast out) = Inr s1"
    "compressImage ad s1 (extname inp) inp = Inr buf"
    "writeFileSync s1 out buf = Inr s'"
    "\<not> (g \<and> \<not> containsText ''webp'' (extname inp))" "evs = []"
  using assms
  by (auto simp: optimizeImages_def Let_def split: sum.splits if_splits prod.splits)

lemma optimizeImages_ThrownE:
  assumes "optimizeImages ad g s inp out = (Thrown e, s', evs)"
  obtains e0 where "ensureExists s (butlast out) = Inl e0" "e = Wrapped e0" "s' = s" "evs = []"
  | s1 e0 where "ensureExists s (butlast out) = Inr s1"
      "compressImage ad s1 (extname inp) inp = Inl e0" "e = Wrapped e0" "s' = s1" "evs = []"
  | s1 buf e0 where "ensureExists s (butlast out) = Inr s1"
      "compressImage ad s1 (extname inp) inp = Inr buf"
      "writeFileSync s1 out buf = Inl e0" "e = Wrapped e0" "s' = s1" "evs = []"
  using assms
  by (auto simp: optimizeImages_def Let_def split: sum.splits if_splits prod.splits)

lemma processImageFile_DoneE:
  assumes "processImageFile cfg ad file w = (Done, w')"
  obtains s1 evs where
    "ensureExists (files w) (butlast (outputDir cfg @ file)) = Inr s1"
    "optimizeImages ad (generateWebP cfg) s1 (inputDir cfg @ file) (outputDir cfg @ file) =
       (Done, files w', evs)"
    "w' = w\<lparr>files := files w',
             stats := updateStats (stats w) (getFileSize s1 (inputDir cfg @ file))
                        (getFileSize (files w') (outputDir cfg @ file)),
             console := console w @ evs\<rparr>"
  using assms
  by (auto simp: processImageFile_def Let_def split: sum.splits outcome.splits prod.splits)

lemma processImageFile_ThrownE:
  assumes "processImageFile cfg ad file w = (Thrown e, w')"
  obtains "ensureExists (files w) (butlast (outputDir cfg @ file)) = Inl e" "w' = w"
  | s1 evs where
    "ensureExists (files w) (butlast (outputDir cfg @ file)) = Inr s1"
    "optimizeImages ad (generateWebP cfg) s1 (inputDir cfg @ file) (outputDir cfg @ file) =
       (Thrown e, files w', evs)"
    "w' = w\<lparr>files := files w', console := console w @ evs\<rparr>"
  using assms
  by (auto simp: processImageFile_def Let_def split: sum.splits outcome.splits prod.splits)

subsection \<open>Every step keeps the tree well-formed and the kinds of its entries\<close>

lemma generateWebPFile_extends: "generateWebPFile ad s inp out = (s', evs) \<Longrightarrow> extends s s'"
  by (erule generateWebPFile_cases) (auto intro: extends_refl extends_writeFileSync)

lemma generateWebPFile_wf: "wf_fs s \<Longrightarrow> generateWebPFile ad s inp out = (s', evs) \<Longrightarrow> wf_fs s'"
  by (erule generateWebPFile_cases) (auto intro: wf_fs_writeFileSync)

lemma optimizeImages_extends:
  assumes run: "optimizeImages ad g s inp out = (r, s', evs)"
  shows "extends s s'"
proof (cases r)
  case Done
  with run have d: "optimizeImages ad g s inp out = (Done, s', evs)" by simp
  show ?thesis
    by (rule optimizeImages_DoneE[OF d]) (blast intro: extends_trans extends_ensureExists extends_writeFileSync generateWebPFile_extends)+
next
  case (Thrown e)
  with run have t: "optimizeImages ad g s inp out = (Thrown e, s', evs)" by simp
  show ?thesis
    by (rule optimizeImages_ThrownE[OF t]) (auto intro: extends_refl extends_ensureExists)
qed

lemma optimizeImages_wf:
  assumes run: "optimizeImages ad g s inp out = (r, s', evs)"
    and wf: "wf_fs s"
  shows "wf_fs s'"
proof (cases r)
  case Done
  with run have d: "optimizeImages ad g s inp out = (Done, s', evs)" by simp
  show ?thesis
    by (rule optimizeImages_DoneE[OF d]) (use wf in \<open>blast dest: wf_fs_ensureExists wf_fs_writeFileSync generateWebPFile_wf\<close>)+
next
  case (Thrown e)
  with run have t: "optimizeImages ad g s inp out = (Thrown e, s', evs)" by simp
  show ?thesis
    by (rule optimizeImages_ThrownE[OF t]) (use wf in \<open>auto dest: wf_fs_ensureExists\<close>)
qed

lemma processTextFile_extends:
  assumes run: "processTextFile cfg ad cat file w = (r, w')"
  shows "extends (files w) (files w')"
proof (cases r)
  case Done
  with run have d: "processTextFile cfg ad cat file w = (Done, w')" by simp
  show ?thesis
    by (rule processTextFile_DoneE[OF d]) (auto intro: extends_trans[OF extends_ensureExists] extends_writeFileSync)
next
  case (Thrown e)
  with run have t: "processTextFile cfg ad cat file w = (Thrown e, w')" by simp
  show ?thesis
    by (rule processTextFile_ThrownE[OF t]) (auto intro: extends_refl extends_ensureExists)
qed

lemma processTextFile_wf:
  assumes run: "processTextFile cfg ad cat file w = (r, w')"
    and wf: "wf_fs (files w)"
  shows "wf_fs (files w')"
proof (cases r)
  case Done
  with run have d: "processTextFile cfg ad cat file w = (Done, w')" by simp
  show ?thesis
    by (rule processTextFile_DoneE[OF d]) (use wf in \<open>auto dest: wf_fs_ensureExists wf_fs_writeFileSync\<close>)
next
  case (Thrown e)
  with run have t: "processTextFile cfg ad cat file w = (Thrown e, w')" by simp
  show ?thesis
    by (rule processTextFile_ThrownE[OF t]) (use wf in \<open>auto dest: wf_fs_ensureExists\<close>)
qed

lemma processImageFile_extends:
  assumes run: "processImageFile cfg ad file w = (r, w')"
  shows "extends (files w) (files w')"
proof (cases r)
  case Done
  with run have d: "processImageFile cfg ad file w = (Done, w')" by simp
  show ?thesis
    by (rule processImageFile_DoneE[OF d]) (auto intro: extends_trans[OF extends_ensureExists] optimizeImages_extends)
next
  case (Thrown e)
  with run have t: "processImageFile cfg ad file w = (Thrown e, w')" by simp
  show ?thesis
    by (rule processImageFile_ThrownE[OF t]) (auto intro: extends_refl extends_trans[OF extends_ensureExists] optimizeImages_extends)
qed

lemma processImageFile_wf:
  assumes run: "processImageFile cfg ad file w = (r, w')"
    and wf: "wf_fs (files w)"
  shows "wf_fs (files w')"
proof (cases r)
  case Done
  with run have d: "processImageFile cfg ad file w = (Done, w')" by simp
  show ?thesis
    by (rule processImageFile_DoneE[OF d]) (use wf in \<open>auto dest: wf_fs_ensureExists optimizeImages_wf\<close>)
next
  case (Thrown e)
  with run have t: "processImageFile cfg ad file w = (Thrown e, w')" by simp
  show ?thesis
    by (rule processImageFile_ThrownE[OF t]) (use wf in \<open>auto dest: wf_fs_ensureExists optimizeImages_wf\<close>)
qed

section \<open>The mirrored output\<close>










lemma wf_fs_iff:
  "wf_fs s \<longleftrightarrow>
     distinct (map fst s) \<and> list_all (\<lambda>(p, n). lookup s (butlast p) = Some Dir) s"
proof -
  have "(\<forall>p. lookup s p \<noteq> None \<longrightarrow> lookup s (butlast p) = Some Dir) \<longleftrightarrow>
        (\<forall>(p, n) \<in> set s. lookup s (butlast p) = Some Dir)"
  proof (intro iffI allI impI)
    assume h: "\<forall>p. lookup s p \<noteq> None \<longrightarrow> lookup s (butlast p) = Some Dir"
    show "\<forall>(p, n) \<in> set s. lookup s (butlast p) = Some Dir"
    proof (clarify)
      fix p n assume "(p, n) \<in> set s"
      then have "map_of s p \<noteq> None" by (simp add: map_of_eq_None_iff rev_image_eqI)
      then have "lookup s p \<noteq> None" by (simp add: lookup_def)
      with h show "lookup s (butlast p) = Some Dir" by blast
    qed
  next
    fix p
    assume h: "\<forall>(p, n) \<in> set s. lookup s (butlast p) = Some Dir" and ex: "lookup s p \<noteq> None"
    show "lookup s (butlast p) = Some Dir"
    proof (cases "p = []")
      case True
      then show ?thesis by simp
    next
      case False
      with ex obtain n where "map_of s p = Some n" by (auto simp: lookup_def)
      then have "(p, n) \<in> set s" by (rule map_of_SomeD)
      with h show ?thesis by blast
    qed
  qed
  then show ?thesis by (simp add: wf_fs_def list_all_iff)
qed

lemma wf_smallSite: "wf_fs smallSite"
  by (simp add: wf_fs_iff smallSite_def lookup_def)


section \<open>WebP generation\<close>

subsection \<open>The name of the WebP file\<close>

lemma lowerChar_dot: "lowerChar (CHR ''.'') = CHR ''.''"
  by (simp add: lowerChar_def)

lemma extname_properD:
  assumes "extname p \<noteq> []" "extname p \<noteq> ''.''"
  shows "p \<noteq> [] \<and> CHR ''.'' \<in> set (last p) \<and> last p \<noteq> [] \<and> last (last p) \<noteq> CHR ''.''"
proof -
  let ?n = "last p"
  from assms(1) have p: "p \<noteq> []" and e: "extOf ?n \<noteq> []"
    by (auto simp: extname_def split: if_splits)
  from e have dot: "CHR ''.'' \<in> set ?n" by (auto simp: extOf_def split: if_splits)
  then have ne: "?n \<noteq> []" by auto
  have "takeWhile (\<lambda>c. c \<noteq> CHR ''.'') (rev ?n) \<noteq> []"
  proof
    assume "takeWhile (\<lambda>c. c \<noteq> CHR ''.'') (rev ?n) = []"
    with dot have "extOf ?n = ''.''" by (simp add: extOf_def)
    with assms p show False by (auto simp: extname_def lowerChar_dot split: if_splits)
  qed
  then have "hd (rev ?n) \<noteq> CHR ''.''"
    by (cases "rev ?n") (auto split: if_splits)
  then have "last ?n \<noteq> CHR ''.''" using ne by (simp add: hd_rev)
  with p dot ne show ?thesis by simp
qed

lemma webpPathOf_proper:
  assumes "p \<noteq> []" "CHR ''.'' \<in> set (last p)" "last (last p) \<noteq> CHR ''.''"
  shows "webpPathOf p = butlast p @ [stemOf (last p) @ ''.webp'']"
proof -
  from assms(1) have rp: "rev p = last p # rev (butlast p)"
    by (cases p rule: rev_cases) auto
  have "replaceLastDot (rev p) = Some ((stemOf (last p) @ ''.webp'') # rev (butlast p))"
    by (subst rp) (simp add: assms(2))
  then show ?thesis using assms(1,3) by (simp add: webpPathOf_def)
qed

lemma compressImage_ext:
  assumes "compressImage ad s ext inp = Inr buf"
  shows "ext \<noteq> [] \<and> ext \<noteq> ''.''"
  using assms by (auto simp: compressImage_def split: if_splits)

lemma webp_name_differs: "stemOf n @ ''.webp'' = n \<Longrightarrow> containsText ''webp'' (map lowerChar (extOf n))"
proof -
  assume a: "stemOf n @ ''.webp'' = n"
  then have dot: "CHR ''.'' \<in> set n" by (metis in_set_conv_decomp list.set_intros(1) append_Cons)
  from a have "rev n = rev ''.webp'' @ rev (stemOf n)" by (metis rev_append)
  then have "takeWhile (\<lambda>c. c \<noteq> CHR ''.'') (rev n) =
      takeWhile (\<lambda>c. c \<noteq> CHR ''.'') (rev ''.webp'' @ rev (stemOf n))"
    by (rule arg_cong)
  then have "takeWhile (\<lambda>c. c \<noteq> CHR ''.'') (rev n) = ''pbew''" by simp
  with dot have "extOf n = ''.webp''" by (simp add: extOf_def)
  then show ?thesis by (simp add: lowerChar_def)
qed

lemma getFileSize_cong: "lookup s p = lookup t p \<Longrightarrow> getFileSize s p = getFileSize t p"
  by (simp add: getFileSize_def statSync_def)

lemma processImageFile_webp_off_on:
  assumes g: "generateWebP cfg" and ne: "file \<noteq> []"
    and nw: "\<not> containsText ''webp'' (extname (inputDir cfg @ file))"
    and off: "processImageFile (cfg\<lparr>generateWebP := False\<rparr>) ad file w = (Done, w0)"
  shows "webpPathOf (outputDir cfg @ file) =
           butlast (outputDir cfg @ file) @ [stemOf (last file) @ ''.webp'']"
    and "webpPathOf (outputDir cfg @ file) \<noteq> outputDir cfg @ file"
    and "processImageFile cfg ad file w =
          (case generateWebPFile ad (files w0) (inputDir cfg @ file) (outputDir cfg @ file) of
             (s3, evs) \<Rightarrow> (Done, w0\<lparr>files := s3, console := console w0 @ evs\<rparr>))"
proof -
  let ?inp = "inputDir cfg @ file" and ?out = "outputDir cfg @ file"
  let ?off = "cfg\<lparr>generateWebP := False\<rparr>"
  obtain s1 evs where
    e1: "ensureExists (files w) (butlast ?out) = Inr s1"
    and o: "optimizeImages ad False s1 ?inp ?out = (Done, files w0, evs)"
    and w0: "w0 = w\<lparr>files := files w0,
             stats := updateStats (stats w) (getFileSize s1 ?inp) (getFileSize (files w0) ?out),
             console := console w @ evs\<rparr>"
    by (rule processImageFile_DoneE[OF off]) (rule that, simp_all)
  obtain s1' buf where
    e2: "ensureExists s1 (butlast ?out) = Inr s1'"
    and c: "compressImage ad s1' (extname ?inp) ?inp = Inr buf"
    and wr: "writeFileSync s1' ?out buf = Inr (files w0)"
    and evs: "evs = []"
    by (rule optimizeImages_DoneE[OF o], simp) (rule that, simp_all)
  from compressImage_ext[OF c] have ext: "extname ?inp \<noteq> []" "extname ?inp \<noteq> ''.''" by simp_all
  from extname_properD[OF ext] ne have nm: "CHR ''.'' \<in> set (last file)" "last file \<noteq> []"
    "last (last file) \<noteq> CHR ''.''"
    by simp_all
  from ne nm show name: "webpPathOf ?out = butlast ?out @ [stemOf (last file) @ ''.webp'']"
    using webpPathOf_proper[of ?out] by simp
  show diff: "webpPathOf ?out \<noteq> ?out"
  proof
    assume "webpPathOf ?out = ?out"
    with name have "last (butlast ?out @ [stemOf (last file) @ ''.webp'']) = last ?out"
      by simp
    then have "stemOf (last file) @ ''.webp'' = last file" using ne by simp
    then have "containsText ''webp'' (map lowerChar (extOf (last file)))"
      by (rule webp_name_differs)
    moreover have "extname ?inp = map lowerChar (extOf (last file))"
      using ext(1) ne by (auto simp: extname_def split: if_splits)
    ultimately show False using nw by simp
  qed
  obtain s3 evs3 where gen: "generateWebPFile ad (files w0) ?inp ?out = (s3, evs3)"
    by (cases "generateWebPFile ad (files w0) ?inp ?out")
  have same: "lookup s3 ?out = lookup (files w0) ?out"
    by (rule generateWebPFile_cases[OF gen]) (use diff in \<open>auto simp: lookup_writeFileSync\<close>)
  have on: "optimizeImages ad True s1 ?inp ?out = (Done, s3, evs3)"
    using e2 c wr nw gen by (simp add: optimizeImages_def)
  have "processImageFile cfg ad file w =
      (Done, w\<lparr>files := s3,
               stats := updateStats (stats w) (getFileSize s1 ?inp) (getFileSize s3 ?out),
               console := console w @ evs3\<rparr>)"
    using e1 on g by (simp add: processImageFile_def)
  also have "\<dots> = (Done, w0\<lparr>files := s3, console := console w0 @ evs3\<rparr>)"
  proof -
    have st0: "stats w0 = updateStats (stats w) (getFileSize s1 ?inp) (getFileSize (files w0) ?out)"
      by (subst w0) simp
    have co0: "console w0 = console w" by (subst w0) (simp add: evs)
    have mo0: "world.more w0 = world.more w" by (subst w0) simp
    have "w\<lparr>files := s3,
               stats := updateStats (stats w) (getFileSize s1 ?inp) (getFileSize s3 ?out),
               console := console w @ evs3\<rparr> = w0\<lparr>files := s3, console := console w0 @ evs3\<rparr>"
      by (rule world.equality) (simp_all add: st0 co0 mo0 getFileSize_cong[OF same])
    then show ?thesis by simp
  qed
  finally show "processImageFile cfg ad file w =
          (case generateWebPFile ad (files w0) ?inp ?out of
             (s3, evs) \<Rightarrow> (Done, w0\<lparr>files := s3, console := console w0 @ evs\<rparr>))"
    by (simp add: gen)
qed

lemma processImageFile_webp_Thrown:
  assumes off: "processImageFile (cfg\<lparr>generateWebP := False\<rparr>) ad file w = (Thrown e, w0)"
  shows "processImageFile cfg ad file w = (Thrown e, w0)"
proof (rule processImageFile_ThrownE[OF off])
  assume "ensureExists (files w) (butlast (outputDir (cfg\<lparr>generateWebP := False\<rparr>) @ file)) = Inl e"
    "w0 = w"
  then show ?thesis by (simp add: processImageFile_def)
next
  fix s1 evs
  assume e1: "ensureExists (files w) (butlast (outputDir (cfg\<lparr>generateWebP := False\<rparr>) @ file)) = Inr s1"
    and o: "optimizeImages ad (generateWebP (cfg\<lparr>generateWebP := False\<rparr>)) s1
       (inputDir (cfg\<lparr>generateWebP := False\<rparr>) @ file) (outputDir (cfg\<lparr>generateWebP := False\<rparr>) @ file) =
       (Thrown e, files w0, evs)"
    and w0: "w0 = w\<lparr>files := files w0, console := console w @ evs\<rparr>"
  have "optimizeImages ad (generateWebP cfg) s1 (inputDir cfg @ file) (outputDir cfg @ file) =
      (Thrown e, files w0, evs)"
    by (rule optimizeImages_ThrownE[OF o]) (simp_all add: optimizeImages_def)
  with e1 have "processImageFile cfg ad file w = (Thrown e, w\<lparr>files := files w0, console := console w @ evs\<rparr>)"
    by (simp add: processImageFile_def)
  with w0 show ?thesis by simp
qed


text \<open>
  Claim C8, as amended. With WebP generation on, for a file found by the glob whose
  extension does not contain \<open>webp\<close>: if the step with WebP generation off throws,
  the step throws the same; if it completes, the WebP path is the output path with the
  extension replaced by \<open>.webp\<close>, a different path; when the encoder and the write
  succeed the step completes with the encoder's output at that path and the primary
  output untouched; when either fails, the step completes as with WebP generation off,
  with one warning more on the console, and the loop goes on with the next file.
\<close>

theorem webp_generation_best_effort:
  "generateWebP cfg \<and> file \<noteq> [] \<and> \<not> containsText ''webp'' (extname (inputDir cfg @ file)) \<longrightarrow>
     (processImageFile (cfg\<lparr>generateWebP := False\<rparr>) ad file w = (Thrown e, w0) \<longrightarrow>
        processImageFile cfg ad file w = (Thrown e, w0)) \<and>
     (processImageFile (cfg\<lparr>generateWebP := False\<rparr>) ad file w = (Done, w0) \<longrightarrow>
        webpPathOf (outputDir cfg @ file) =
          butlast (outputDir cfg @ file) @ [stemOf (last file) @ ''.webp''] \<and>
        webpPathOf (outputDir cfg @ file) \<noteq> outputDir cfg @ file \<and>
        (\<forall>d s3. imagemin (minWebP ad) (files w0) (inputDir cfg @ file) = Inr d \<and>
                writeFileSync (files w0) (webpPathOf (outputDir cfg @ file)) d = Inr s3 \<longrightarrow>
           processImageFile cfg ad file w = (Done, w0\<lparr>files := s3\<rparr>) \<and>
           lookup s3 (webpPathOf (outputDir cfg @ file)) = Some (File d) \<and>
           lookup s3 (outputDir cfg @ file) = lookup (files w0) (outputDir cfg @ file)) \<and>
        (\<forall>x. imagemin (minWebP ad) (files w0) (inputDir cfg @ file) = Inl x \<or>
             (\<exists>d. imagemin (minWebP ad) (files w0) (inputDir cfg @ file) = Inr d \<and>
                  writeFileSync (files w0) (webpPathOf (outputDir cfg @ file)) d = Inl x) \<longrightarrow>
           processImageFile cfg ad file w = (Done, w0\<lparr>console := console w0 @ [WebPWarning x]\<rparr>) \<and>
           forEachFile (processImageFile cfg ad) (file # rest) w =
             forEachFile (processImageFile cfg ad) rest (w0\<lparr>console := console w0 @ [WebPWarning x]\<rparr>)))"
proof (intro impI conjI allI; (elim conjE)?)
  assume "processImageFile (cfg\<lparr>generateWebP := False\<rparr>) ad file w = (Thrown e, w0)"
  then show "processImageFile cfg ad file w = (Thrown e, w0)"
    by (rule processImageFile_webp_Thrown)
next
  assume g: "generateWebP cfg" and ne: "file \<noteq> []"
    and nw: "\<not> containsText ''webp'' (extname (inputDir cfg @ file))"
    and off: "processImageFile (cfg\<lparr>generateWebP := False\<rparr>) ad file w = (Done, w0)"
  note L = processImageFile_webp_off_on[OF g ne nw off]
  show "webpPathOf (outputDir cfg @ file) =
          butlast (outputDir cfg @ file) @ [stemOf (last file) @ ''.webp'']"
    by (rule L(1))
  show "webpPathOf (outputDir cfg @ file) \<noteq> outputDir cfg @ file"
    by (rule L(2))
  {
    fix d s3
    assume im: "imagemin (minWebP ad) (files w0) (inputDir cfg @ file) = Inr d"
      and wr: "writeFileSync (files w0) (webpPathOf (outputDir cfg @ file)) d = Inr s3"
    show "processImageFile cfg ad file w = (Done, w0\<lparr>files := s3\<rparr>)"
      using L(3) im wr by (simp add: generateWebPFile_def)
    show "lookup s3 (webpPathOf (outputDir cfg @ file)) = Some (File d)"
      by (simp add: lookup_writeFileSync[OF wr])
    show "lookup s3 (outputDir cfg @ file) = lookup (files w0) (outputDir cfg @ file)"
      using L(2) by (simp add: lookup_writeFileSync[OF wr])
  }
  {
    fix x
    assume f: "imagemin (minWebP ad) (files w0) (inputDir cfg @ file) = Inl x \<or>
             (\<exists>d. imagemin (minWebP ad) (files w0) (inputDir cfg @ file) = Inr d \<and>
                  writeFileSync (files w0) (webpPathOf (outputDir cfg @ file)) d = Inl x)"
    then show step: "processImageFile cfg ad file w =
        (Done, w0\<lparr>console := console w0 @ [WebPWarning x]\<rparr>)"
      using L(3) by (auto simp: generateWebPFile_def)
    show "forEachFile (processImageFile cfg ad) (file # rest) w =
             forEachFile (processImageFile cfg ad) rest (w0\<lparr>console := console w0 @ [WebPWarning x]\<rparr>)"
      by (simp add: step)
  }
qed

theorem webp_generation_best_effort_witness:
  "generateWebP webpConfig \<and> [''logo.png''] \<noteq> [] \<and>
   \<not> containsText ''webp'' (extname (inputDir webpConfig @ [''logo.png''])) \<and>
   processImageFile (webpConfig\<lparr>generateWebP := False\<rparr>) noWebP [''logo.png''] (newWorld imageSite) =
     (Done, \<lparr>files = imageSite @ [([''dist''], Dir), ([''dist'', ''logo.png''], File ''PNG'')],
             stats = \<lparr>originalSize = 3, optimizedSize = 3, filesProcessed = 1, timeElapsed = 0\<rparr>,
             console = []\<rparr>) \<and>
   processImageFile webpConfig noWebP [''logo.png''] (newWorld imageSite) =
     (Done, \<lparr>files = imageSite @ [([''dist''], Dir), ([''dist'', ''logo.png''], File ''PNG'')],
             stats = \<lparr>originalSize = 3, optimizedSize = 3, filesProcessed = 1, timeElapsed = 0\<rparr>,
             console = [WebPWarning AdapterError]\<rparr>) \<and>
   webpPathOf (outputDir webpConfig @ [''logo.png'']) = [''dist'', ''logo.webp''] \<and>
   processImageFile webpConfig idAdapters [''logo.png''] (newWorld imageSite) =
     (Done, \<lparr>files = imageSite @ [([''dist''], Dir), ([''dist'', ''logo.png''], File ''PNG''),
                       ([''dist'', ''logo.webp''], File ''PNG'')],
             stats = \<lparr>originalSize = 3, optimizedSize = 3, filesProcessed = 1, timeElapsed = 0\<rparr>,
             console = []\<rparr>)"
proof -
  let ?w0 = "\<lparr>files = imageSite @ [([''dist''], Dir), ([''dist'', ''logo.png''], File ''PNG'')],
             stats = \<lparr>originalSize = 3, optimizedSize = 3, filesProcessed = 1, timeElapsed = 0\<rparr>,
             console = []\<rparr>"
  have h: "generateWebP webpConfig \<and> [''logo.png''] \<noteq> [] \<and>
      \<not> containsText ''webp'' (extname (inputDir webpConfig @ [''logo.png'']))"
    by code_simp
  have off: "processImageFile (webpConfig\<lparr>generateWebP := False\<rparr>) noWebP [''logo.png''] (newWorld imageSite) =
      (Done, ?w0)"
    by code_simp
  have im: "imagemin (minWebP noWebP) (files ?w0) (inputDir webpConfig @ [''logo.png'']) = Inl AdapterError"
    by code_simp
  have nm: "butlast (outputDir webpConfig @ [''logo.png'']) @ [stemOf (last [''logo.png'']) @ ''.webp''] =
      [''dist'', ''logo.webp'']"
    by code_simp
  have on: "processImageFile webpConfig idAdapters [''logo.png''] (newWorld imageSite) =
     (Done, \<lparr>files = imageSite @ [([''dist''], Dir), ([''dist'', ''logo.png''], File ''PNG''),
                       ([''dist'', ''logo.webp''], File ''PNG'')],
             stats = \<lparr>originalSize = 3, optimizedSize = 3, filesProcessed = 1, timeElapsed = 0\<rparr>,
             console = []\<rparr>)"
    by code_simp
  from webp_generation_best_effort[where cfg = webpConfig and ?file = "[''logo.png'']" and ad = noWebP
      and w = "newWorld imageSite" and ?w0.0 = ?w0, rule_format, OF h]
  have "webpPathOf (outputDir webpConfig @ [''logo.png'']) = [''dist'', ''logo.webp'']"
    and "processImageFile webpConfig noWebP [''logo.png''] (newWorld imageSite) =
      (Done, ?w0\<lparr>console := console ?w0 @ [WebPWarning AdapterError]\<rparr>)"
    using off im nm by auto
  then show ?thesis using h off on by simp
qed

text \<open>
  The claim as stated also calls this the sole error that is recovered where it
  occurs. It is not: \<open>getFileSize\<close> answers a failing \<open>statSync\<close> with 0.
\<close>

theorem failing_stat_is_recovered_too:
  "statSync imageSite [''src'', ''gone.png''] = Inl ENOENT \<and>
   getFileSize imageSite [''src'', ''gone.png''] = 0"
  by code_simp

section \<open>Failure of a file\<close>

subsection \<open>What a step of a text category changes\<close>






lemma forEachFile_append_Done:
  assumes "forEachFile body pre w = (Done, w1)"
  shows "forEachFile body (pre @ post) w = forEachFile body post w1"
  using assms
proof (induction pre arbitrary: w)
  case Nil
  then show ?case by simp
next
  case (Cons f pre)
  then show ?case by (auto split: prod.splits outcome.splits)
qed

subsection \<open>The list of a glob\<close>





subsection \<open>Fail-fast\<close>










section \<open>The backup copy\<close>

subsection \<open>Regions of the tree\<close>

lemma region_update:
  "region d (AList.update q n s) =
     (if prefix d q then AList.update q n (region d s) else region d s)"
  by (induction s) (auto simp: region_def)

lemma region_ensureDir_out: "\<not> prefix d q \<Longrightarrow> region d (ensureDir q s) = region d s"
  by (simp add: ensureDir_def region_update)

lemma region_fold_ensureDir_out:
  "\<forall>q \<in> set qs. \<not> prefix d q \<Longrightarrow> region d (fold ensureDir qs s) = region d s"
  by (induction qs arbitrary: s) (simp_all add: region_ensureDir_out)

lemma region_mkdirSync_out:
  assumes "mkdirSync s p = Inr s'" "\<not> prefix d p"
  shows "region d s' = region d s"
proof -
  have "\<forall>q \<in> set (prefixes p). \<not> prefix d q"
    using assms(2) by (auto dest: prefix_order.trans)
  then show ?thesis using assms(1) by (simp add: mkdirSync_Inr_iff region_fold_ensureDir_out)
qed


lemma map_of_region: "prefix d p \<Longrightarrow> map_of (region d s) p = map_of s p"
  by (induction s) (auto simp: region_def)

lemma lookup_region: "prefix d p \<Longrightarrow> lookup (region d s) p = lookup s p"
  by (simp add: lookup_def map_of_region)

lemma region_lookup_eq: "region d s = region d t \<Longrightarrow> prefix d p \<Longrightarrow> lookup s p = lookup t p"
  by (metis lookup_region)

lemma filter_region:
  "(\<And>q n. P (q, n) \<Longrightarrow> prefix d q) \<Longrightarrow> filter P (region d s) = filter P s"
  by (induction s) (auto simp: region_def)



lemma region_region: "prefix d e \<Longrightarrow> region e (region d s) = region e s"
  unfolding region_def[of e] by (rule filter_region) (auto dest: prefix_order.trans)

lemma region_sub_eq: "region d s = region d t \<Longrightarrow> prefix d e \<Longrightarrow> region e s = region e t"
  by (metis region_region)

lemma readdirSync_region:
  assumes "region d s = region d t" "prefix d p"
  shows "readdirSync s p = readdirSync t p"
proof -
  have f: "filter (\<lambda>(q, n). q \<noteq> [] \<and> butlast q = p) (region d u) =
        filter (\<lambda>(q, n). q \<noteq> [] \<and> butlast q = p) u" for u
  proof (rule filter_region)
    fix q n assume "(case (q, n) of (q, n) \<Rightarrow> q \<noteq> [] \<and> butlast q = p)"
    then have "prefix p q" by (auto intro: prefixeq_butlast)
    with assms(2) show "prefix d q" by (rule prefix_order.trans)
  qed
  have "filter (\<lambda>(q, n). q \<noteq> [] \<and> butlast q = p) s = filter (\<lambda>(q, n). q \<noteq> [] \<and> butlast q = p) t"
    using f[of s] f[of t] assms(1) by simp
  moreover have "lookup s p = lookup t p" by (rule region_lookup_eq[OF assms])
  ultimately show ?thesis unfolding readdirSync_def by (simp only:)
qed

lemma glob_region:
  assumes "region d s = region d t"
  shows "glob s d exts = glob t d exts"
proof -
  have f: "filter (globMatch d exts) (map fst u) = filter (globMatch d exts) (map fst (region d u))" for u
    by (induction u) (auto simp: region_def globMatch_def strict_prefix_def)
  show ?thesis unfolding glob_def using f[of s] f[of t] assms by simp
qed

subsection \<open>Listings\<close>




subsection \<open>What the copy leaves alone\<close>




lemma copyFileSync_Inr_iff:
  "copyFileSync s src dest = Inr s' \<longleftrightarrow>
     (\<exists>c. lookup s src = Some (File c) \<and> writeFileSync s dest c = Inr s')"
  by (auto simp: copyFileSync_def readFileSync_def split: sum.splits option.splits node.splits)


subsection \<open>The copy is complete, and it ends\<close>








subsection \<open>The backup as a whole\<close>







subsection \<open>The backup precedes the categories\<close>






section \<open>A second run\<close>

subsection \<open>The file system operations, replayed\<close>

lemma ahead_same:
  assumes "ahead d E s t" "lookup E = lookup s"
  shows "lookup t = lookup s"
proof
  fix p
  from assms(1) have "lookup t p = lookup s p \<or> lookup t p = lookup E p" by (simp add: ahead_def)
  with assms(2) show "lookup t p = lookup s p" by auto
qed

lemma ahead_input: "ahead d E s t \<Longrightarrow> prefix d p \<Longrightarrow> lookup t p = lookup s p"
  using region_lookup_eq[of d s t p] by (simp add: ahead_def)

lemma extends_exists: "extends s E \<Longrightarrow> lookup s p \<noteq> None \<Longrightarrow> lookup E p \<noteq> None"
proof -
  assume e: "extends s E" and n: "lookup s p \<noteq> None"
  then obtain nd where nd: "lookup s p = Some nd" by auto
  show ?thesis
  proof (cases nd)
    case (File c)
    with nd e have "isFile (lookup E p)" by (simp add: extends_def)
    then show ?thesis by (auto simp: isFile_iff)
  next
    case Dir
    with nd e show ?thesis by (simp add: extends_def)
  qed
qed

lemma mkdirSync_same: "lookup t = lookup s \<Longrightarrow> mkdirSync s p = Inl e \<Longrightarrow> mkdirSync t p = Inl e"
  by (auto simp: mkdirSync_def split: option.splits)

lemma ensureExists_same:
  "lookup t = lookup s \<Longrightarrow> ensureExists s p = Inl e \<Longrightarrow> ensureExists t p = Inl e"
  using mkdirSync_same[of t s p e] by (simp add: ensureExists_def existsSync_def split: if_splits)

lemma writeFileSync_same:
  "lookup t = lookup s \<Longrightarrow> writeFileSync s p c = Inl e \<Longrightarrow> writeFileSync t p c = Inl e"
  by (auto simp: writeFileSync_def split: option.splits node.splits if_splits)

lemma region_ensureDir:
  "region d (ensureDir q s) = (if prefix d q then ensureDir q (region d s) else region d s)"
  by (simp add: ensureDir_def region_update lookup_region)

lemma region_fold_ensureDir:
  "region d (fold ensureDir qs s) = fold ensureDir (filter (prefix d) qs) (region d s)"
  by (induction qs arbitrary: s) (simp_all add: region_ensureDir)

lemma region_mkdirSync_eq:
  "region d s = region d t \<Longrightarrow> mkdirSync s p = Inr s' \<Longrightarrow> mkdirSync t p = Inr t' \<Longrightarrow>
   region d s' = region d t'"
  by (simp add: mkdirSync_Inr_iff region_fold_ensureDir)

lemma ahead_mkdirSync:
  assumes A: "ahead d E s t" and mk: "mkdirSync s p = Inr s'" and ext: "extends s' E"
  shows "\<exists>t'. mkdirSync t p = Inr t' \<and> ahead d E s' t'"
proof -
  from A have wf: "wf_fs s" "wf_fs t" and reg: "region d s = region d t"
    and lk: "\<And>q. lookup t q = lookup s q \<or> lookup t q = lookup E q"
    by (simp_all add: ahead_def)
  have nf: "\<not> isFile (lookup t q)" if "prefix q p" for q
  proof -
    from mkdirSync_dirs[OF mk that] ext have "lookup E q = Some Dir" by (simp add: extends_def)
    moreover from mk that have "\<not> isFile (lookup s q)" by (simp add: mkdirSync_Inr_iff)
    ultimately show ?thesis using lk[of q] by auto
  qed
  then have mk': "mkdirSync t p = Inr (fold ensureDir (prefixes p) t)"
    by (simp add: mkdirSync_Inr_iff)
  let ?t' = "fold ensureDir (prefixes p) t"
  have "lookup ?t' q = lookup s' q \<or> lookup ?t' q = lookup E q" for q
  proof (cases "prefix q p")
    case True
    then show ?thesis using mkdirSync_dirs[OF mk True] mkdirSync_dirs[OF mk' True] by simp
  next
    case False
    then show ?thesis using lk[of q] by (simp add: lookup_mkdirSync[OF mk] lookup_mkdirSync[OF mk'])
  qed
  then have "ahead d E s' ?t'"
    using wf_fs_mkdirSync[OF wf(1) mk] wf_fs_mkdirSync[OF wf(2) mk'] region_mkdirSync_eq[OF reg mk mk']
    by (simp add: ahead_def)
  with mk' show ?thesis by blast
qed

lemma ahead_ensureExists:
  assumes A: "ahead d E s t" and en: "ensureExists s p = Inr s'" and ext: "extends s' E"
  shows "\<exists>t'. ensureExists t p = Inr t' \<and> ahead d E s' t'"
proof -
  from A have wf: "wf_fs s" "wf_fs t" and reg: "region d s = region d t"
    and lk: "\<And>q. lookup t q = lookup s q \<or> lookup t q = lookup E q"
    by (simp_all add: ahead_def)
  from en show ?thesis
  proof (rule ensureExists_cases)
    assume ex: "lookup s p \<noteq> None" and s': "s' = s"
    from extends_exists[OF ext[unfolded s'] ex] ex lk[of p] have "lookup t p \<noteq> None" by auto
    then have "ensureExists t p = Inr t" by (simp add: ensureExists_def existsSync_def)
    with A s' show ?thesis by blast
  next
    assume nx: "lookup s p = None" and mk: "mkdirSync s p = Inr s'"
    show ?thesis
    proof (cases "lookup t p = None")
      case True
      then have "ensureExists t p = mkdirSync t p" by (simp add: ensureExists_def existsSync_def)
      with ahead_mkdirSync[OF A mk ext] show ?thesis by simp
    next
      case False
      then have en': "ensureExists t p = Inr t" by (simp add: ensureExists_def existsSync_def)
      from False nx have np: "\<not> prefix d p" using region_lookup_eq[OF reg, of p] by auto
      have r: "region d s' = region d t" using region_mkdirSync_out[OF mk np] reg by simp
      have "lookup t q = lookup s' q \<or> lookup t q = lookup E q" for q
      proof (cases "prefix q p \<and> lookup s q = None")
        case True
        show ?thesis
        proof (cases "q = p")
          case True
          with lk[of p] nx False show ?thesis by auto
        next
          case neq: False
          with True have "strict_prefix q p" by (simp add: strict_prefix_def)
          from wf_fs_prefix_Dir[OF wf(2) False this] mkdirSync_dirs[OF mk] True
          show ?thesis by simp
        qed
      next
        case False
        then have "lookup s' q = lookup s q" by (auto simp: lookup_mkdirSync[OF mk])
        with lk[of q] show ?thesis by simp
      qed
      then have "ahead d E s' t" using wf_fs_mkdirSync[OF wf(1) mk] wf(2) r by (simp add: ahead_def)
      with en' show ?thesis by blast
    qed
  qed
qed

lemma ahead_writeFileSync:
  assumes A: "ahead d E s t" and wr: "writeFileSync s p c = Inr s'" and ext: "extends s' E"
  shows "\<exists>t'. writeFileSync t p c = Inr t' \<and> ahead d E s' t'"
proof -
  from A have wf: "wf_fs s" "wf_fs t" and reg: "region d s = region d t"
    and lk: "\<And>q. lookup t q = lookup s q \<or> lookup t q = lookup E q"
    by (simp_all add: ahead_def)
  from wr have p: "p \<noteq> []" and par: "lookup s (butlast p) = Some Dir"
    and nd: "lookup s p \<noteq> Some Dir" and s': "s' = AList.update p (File c) s"
    by (simp_all add: writeFileSync_Inr_iff)
  from p have bp: "butlast p \<noteq> p" by (cases p rule: rev_cases) auto
  have "lookup s' (butlast p) = Some Dir" using par bp by (simp add: lookup_writeFileSync[OF wr])
  with ext have "lookup E (butlast p) = Some Dir" by (simp add: extends_def)
  with par lk[of "butlast p"] have par': "lookup t (butlast p) = Some Dir" by auto
  have "isFile (lookup s' p)" by (simp add: lookup_writeFileSync[OF wr])
  with ext have "isFile (lookup E p)" by (simp add: extends_def)
  with nd lk[of p] have nd': "lookup t p \<noteq> Some Dir" by auto
  let ?t' = "AList.update p (File c) t"
  from p par' nd' have wr': "writeFileSync t p c = Inr ?t'" by (simp add: writeFileSync_Inr_iff)
  have "lookup ?t' q = lookup s' q \<or> lookup ?t' q = lookup E q" for q
    using lk[of q] by (simp add: lookup_writeFileSync[OF wr] lookup_writeFileSync[OF wr'])
  moreover have "region d s' = region d ?t'" using reg by (simp add: s' region_update)
  ultimately have "ahead d E s' ?t'"
    using wf_fs_writeFileSync[OF wf(1) wr] wf_fs_writeFileSync[OF wf(2) wr'] by (simp add: ahead_def)
  with wr' show ?thesis by blast
qed

lemma readFileSync_input:
  "ahead d E s t \<Longrightarrow> prefix d p \<Longrightarrow> readFileSync t p = readFileSync s p"
  by (simp add: readFileSync_def ahead_input)

lemma optimizeText_input:
  "ahead d E s t \<Longrightarrow> prefix d p \<Longrightarrow> optimizeText ad cat t p = optimizeText ad cat s p"
  by (simp add: optimizeText_def readFileSync_input)

lemma imagemin_input:
  "ahead d E s t \<Longrightarrow> prefix d p \<Longrightarrow> imagemin f t p = imagemin f s p"
  by (simp add: imagemin_def readFileSync_input)

lemma compressImage_input:
  "ahead d E s t \<Longrightarrow> prefix d p \<Longrightarrow> compressImage ad t ext p = compressImage ad s ext p"
  by (simp add: compressImage_def readFileSync_input imagemin_input)

subsection \<open>The steps, replayed\<close>

lemma towardsD: "towards E r s \<Longrightarrow> extends s E"
  by (simp add: towards_def)

lemma towards_Thrown: "towards E (Thrown e) s \<Longrightarrow> lookup E = lookup s"
  by (simp add: towards_def)

lemma towards_Done: "extends s E \<Longrightarrow> towards E Done s"
  by (simp add: towards_def)

lemma processTextFile_replay:
  assumes run: "processTextFile cfg ad cat file w = (r, w')"
    and A: "ahead (inputDir cfg) E (files w) (files v)"
    and T: "towards E r (files w')"
  shows "\<exists>v'. processTextFile cfg ad cat file v = (r, v') \<and>
              ahead (inputDir cfg) E (files w') (files v')"
proof -
  let ?inp = "inputDir cfg @ file" and ?out = "outputDir cfg @ file"
  have pin: "prefix (inputDir cfg) ?inp" by simp
  show ?thesis
  proof (cases "ensureExists (files w) (butlast ?out)")
    case (Inl e)
    with run have r: "r = Thrown e" and w': "w' = w" by (auto simp: processTextFile_def Let_def)
    from T r w' have "lookup E = lookup (files w)" by (simp add: towards_def)
    from ensureExists_same[OF ahead_same[OF A this] Inl]
    have "processTextFile cfg ad cat file v = (Thrown e, v)" by (simp add: processTextFile_def Let_def)
    with A r w' show ?thesis by auto
  next
    case (Inr s1)
    note en = this
    show ?thesis
    proof (cases "optimizeText ad cat s1 ?inp")
      case (Inl e)
      with run en have r: "r = Thrown e" and w': "files w' = s1"
        by (auto simp: processTextFile_def Let_def)
      from T w' have "extends s1 E" by (simp add: towards_def)
      from ahead_ensureExists[OF A en this] obtain t1 where
        en': "ensureExists (files v) (butlast ?out) = Inr t1" and A1: "ahead (inputDir cfg) E s1 t1"
        by blast
      from optimizeText_input[OF A1 pin] Inl have "optimizeText ad cat t1 ?inp = Inl e" by simp
      with en' have "processTextFile cfg ad cat file v = (Thrown e, v\<lparr>files := t1\<rparr>)"
        by (simp add: processTextFile_def Let_def)
      with A1 r w' show ?thesis by auto
    next
      case (Inr c)
      note op = this
      show ?thesis
      proof (cases "writeFileSync s1 ?out c")
        case (Inl e)
        with run en op have r: "r = Thrown e" and w': "files w' = s1"
          by (auto simp: processTextFile_def Let_def)
        from T w' r have ext: "extends s1 E" and same: "lookup E = lookup s1"
          by (simp_all add: towards_def)
        from ahead_ensureExists[OF A en ext] obtain t1 where
          en': "ensureExists (files v) (butlast ?out) = Inr t1" and A1: "ahead (inputDir cfg) E s1 t1"
          by blast
        from optimizeText_input[OF A1 pin] op have op': "optimizeText ad cat t1 ?inp = Inr c" by simp
        from writeFileSync_same[OF ahead_same[OF A1 same] Inl] en' op'
        have "processTextFile cfg ad cat file v = (Thrown e, v\<lparr>files := t1\<rparr>)"
          by (simp add: processTextFile_def Let_def)
        with A1 r w' show ?thesis by auto
      next
        case (Inr s2)
        with run en op have r: "r = Done" and w': "files w' = s2"
          by (auto simp: processTextFile_def Let_def)
        from T w' have ext2: "extends s2 E" by (simp add: towards_def)
        from extends_trans[OF extends_writeFileSync[OF Inr] ext2] have ext1: "extends s1 E" .
        from ahead_ensureExists[OF A en ext1] obtain t1 where
          en': "ensureExists (files v) (butlast ?out) = Inr t1" and A1: "ahead (inputDir cfg) E s1 t1"
          by blast
        from optimizeText_input[OF A1 pin] op have op': "optimizeText ad cat t1 ?inp = Inr c" by simp
        from ahead_writeFileSync[OF A1 Inr ext2] obtain t2 where
          wr': "writeFileSync t1 ?out c = Inr t2" and A2: "ahead (inputDir cfg) E s2 t2"
          by blast
        from en' op' wr' have "\<exists>v'. processTextFile cfg ad cat file v = (Done, v') \<and> files v' = t2"
          by (simp add: processTextFile_def Let_def)
        with A2 r w' show ?thesis by auto
      qed
    qed
  qed
qed

lemma replaceLastDot_Some:
  "replaceLastDot xs = Some r \<Longrightarrow>
   \<exists>later seg earlier. xs = later @ seg # earlier \<and> r = (stemOf seg @ ''.webp'') # earlier"
proof (induction xs)
  case Nil
  then show ?case by simp
next
  case (Cons seg earlier)
  show ?case
  proof (cases "CHR ''.'' \<in> set seg")
    case True
    with Cons.prems have "r = (stemOf seg @ ''.webp'') # earlier" by simp
    then show ?thesis by (intro exI[of _ "[]"] exI[of _ seg] exI[of _ earlier]) simp
  next
    case False
    with Cons.prems have "replaceLastDot earlier = Some r" by simp
    from Cons.IH[OF this] obtain later seg' earlier' where
      "earlier = later @ seg' # earlier'" "r = (stemOf seg' @ ''.webp'') # earlier'"
      by blast
    then show ?thesis
      by (intro exI[of _ "seg # later"] exI[of _ seg'] exI[of _ earlier']) simp
  qed
qed

lemma webp_parent: "prefix (butlast (webpPathOf out)) (butlast out)"
proof (cases "out = [] \<or> last (last out) = CHR ''.''")
  case True
  then show ?thesis by (auto simp: webpPathOf_def)
next
  case False
  show ?thesis
  proof (cases "replaceLastDot (rev out)")
    case None
    with False show ?thesis by (simp add: webpPathOf_def)
  next
    case (Some r)
    from replaceLastDot_Some[OF Some] obtain later seg earlier where
      ro: "rev out = later @ seg # earlier" and r: "r = (stemOf seg @ ''.webp'') # earlier"
      by blast
    from ro have "out = rev earlier @ seg # rev later" by (simp add: rev_swap)
    then have "butlast out = rev earlier @ butlast (seg # rev later)"
      by (simp add: butlast_append)
    moreover have "webpPathOf out = rev earlier @ [stemOf seg @ ''.webp'']"
      using False Some r by (simp add: webpPathOf_def)
    ultimately show ?thesis by simp
  qed
qed

lemma generateWebPFile_replay:
  assumes run: "generateWebPFile ad s inp out = (s', evs)"
    and A: "ahead d E s t" and ext: "extends s' E" and pin: "prefix d inp"
    and par: "lookup s (butlast out) = Some Dir"
  shows "\<exists>t' evs'. generateWebPFile ad t inp out = (t', evs') \<and> ahead d E s' t'"
proof (cases "imagemin (minWebP ad) s inp")
  case (Inl e)
  with run have "s' = s" by (simp add: generateWebPFile_def)
  moreover from imagemin_input[OF A pin] Inl
  have "generateWebPFile ad t inp out = (t, [WebPWarning e])" by (simp add: generateWebPFile_def)
  ultimately show ?thesis using A by auto
next
  case (Inr data)
  with imagemin_input[OF A pin] have im: "imagemin (minWebP ad) t inp = Inr data" by simp
  let ?q = "webpPathOf out"
  show ?thesis
  proof (cases "writeFileSync s ?q data")
    case (Inr s2)
    with run \<open>imagemin (minWebP ad) s inp = Inr data\<close> have s': "s' = s2"
      by (simp add: generateWebPFile_def)
    from ahead_writeFileSync[OF A Inr ext[unfolded s']] obtain t2 where
      "writeFileSync t ?q data = Inr t2" "ahead d E s2 t2"
      by blast
    with im s' show ?thesis by (auto simp: generateWebPFile_def)
  next
    case (Inl e)
    with run \<open>imagemin (minWebP ad) s inp = Inr data\<close> have s': "s' = s"
      by (simp add: generateWebPFile_def)
    from A have wf: "wf_fs s" and lk: "\<And>p. lookup t p = lookup s p \<or> lookup t p = lookup E p"
      by (simp_all add: ahead_def)
    have "\<exists>e'. writeFileSync t ?q data = Inl e'"
    proof (cases "writeFileSync t ?q data")
      case (Inl e')
      then show ?thesis by simp
    next
      case (Inr t2)
      then have q: "?q \<noteq> []" by (simp add: writeFileSync_Inr_iff)
      from Inr have ndt: "lookup t ?q \<noteq> Some Dir" by (simp add: writeFileSync_Inr_iff)
      have "lookup s (butlast ?q) = Some Dir"
      proof (cases "butlast ?q = butlast out")
        case True
        with par show ?thesis by simp
      next
        case False
        with webp_parent[of out] have "strict_prefix (butlast ?q) (butlast out)"
          by (simp add: strict_prefix_def)
        from wf_fs_prefix_Dir[OF wf _ this] par show ?thesis by simp
      qed
      with Inl q have "lookup s ?q = Some Dir"
        by (auto simp: writeFileSync_def split: option.splits node.splits if_splits)
      moreover from this ext s' have "lookup E ?q = Some Dir" by (simp add: extends_def)
      ultimately show ?thesis using lk[of ?q] ndt by auto
    qed
    then obtain e' where "writeFileSync t ?q data = Inl e'" ..
    with im have "generateWebPFile ad t inp out = (t, [WebPWarning e'])"
      by (simp add: generateWebPFile_def)
    with A s' show ?thesis by auto
  qed
qed

lemma optimizeImages_replay:
  assumes run: "optimizeImages ad g s inp out = (r, s', evs)"
    and A: "ahead d E s t" and T: "towards E r s'" and pin: "prefix d inp"
  shows "\<exists>t' evs'. optimizeImages ad g t inp out = (r, t', evs') \<and> ahead d E s' t'"
proof (cases "ensureExists s (butlast out)")
  case (Inl e)
  with run have r: "r = Thrown (Wrapped e)" and s': "s' = s"
    by (auto simp: optimizeImages_def Let_def)
  from T r s' have "lookup E = lookup s" by (simp add: towards_def)
  from ensureExists_same[OF ahead_same[OF A this] Inl]
  have "optimizeImages ad g t inp out = (Thrown (Wrapped e), t, [])"
    by (simp add: optimizeImages_def Let_def)
  with A r s' show ?thesis by auto
next
  case (Inr s1)
  note en = this
  show ?thesis
  proof (cases "compressImage ad s1 (extname inp) inp")
    case (Inl e)
    with run en have r: "r = Thrown (Wrapped e)" and s': "s' = s1"
      by (auto simp: optimizeImages_def Let_def)
    from T s' have "extends s1 E" by (simp add: towards_def)
    from ahead_ensureExists[OF A en this] obtain t1 where
      en': "ensureExists t (butlast out) = Inr t1" and A1: "ahead d E s1 t1"
      by blast
    from compressImage_input[OF A1 pin, of ad "extname inp"] Inl en'
    have "optimizeImages ad g t inp out = (Thrown (Wrapped e), t1, [])"
      by (simp add: optimizeImages_def Let_def)
    with A1 r s' show ?thesis by auto
  next
    case (Inr buf)
    note co = this
    show ?thesis
    proof (cases "writeFileSync s1 out buf")
      case (Inl e)
      with run en co have r: "r = Thrown (Wrapped e)" and s': "s' = s1"
        by (auto simp: optimizeImages_def Let_def)
      from T s' r have ext: "extends s1 E" and same: "lookup E = lookup s1"
        by (simp_all add: towards_def)
      from ahead_ensureExists[OF A en ext] obtain t1 where
        en': "ensureExists t (butlast out) = Inr t1" and A1: "ahead d E s1 t1"
        by blast
      from compressImage_input[OF A1 pin, of ad "extname inp"] co
        writeFileSync_same[OF ahead_same[OF A1 same] Inl] en'
      have "optimizeImages ad g t inp out = (Thrown (Wrapped e), t1, [])"
        by (simp add: optimizeImages_def Let_def)
      with A1 r s' show ?thesis by auto
    next
      case (Inr s2)
      note wr = this
      obtain s3 ws where gen: "generateWebPFile ad s2 inp out = (s3, ws)"
        by (cases "generateWebPFile ad s2 inp out")
      let ?webp = "g \<and> \<not> containsText ''webp'' (extname inp)"
      from run en co wr gen have r: "r = Done" and s': "s' = (if ?webp then s3 else s2)"
        by (auto simp: optimizeImages_def Let_def split: if_splits)
      from T have ext: "extends s' E" by (simp add: towards_def)
      have "extends s2 s'" using generateWebPFile_extends[OF gen] s' by (simp add: extends_refl)
      then have ext2: "extends s2 E" using ext by (rule extends_trans)
      from extends_trans[OF extends_writeFileSync[OF wr] ext2] have ext1: "extends s1 E" .
      from ahead_ensureExists[OF A en ext1] obtain t1 where
        en': "ensureExists t (butlast out) = Inr t1" and A1: "ahead d E s1 t1"
        by blast
      from compressImage_input[OF A1 pin, of ad "extname inp"] co
      have co': "compressImage ad t1 (extname inp) inp = Inr buf" by simp
      from ahead_writeFileSync[OF A1 wr ext2] obtain t2 where
        wr': "writeFileSync t1 out buf = Inr t2" and A2: "ahead d E s2 t2"
        by blast
      show ?thesis
      proof (cases ?webp)
        case True
        with s' ext have ext3: "extends s3 E" by simp
        from wr have o: "out \<noteq> []" and "lookup s1 (butlast out) = Some Dir"
          by (simp_all add: writeFileSync_Inr_iff)
        moreover from o have "butlast out \<noteq> out" by (cases out rule: rev_cases) auto
        ultimately have par: "lookup s2 (butlast out) = Some Dir"
          by (simp add: lookup_writeFileSync[OF wr])
        from generateWebPFile_replay[OF gen A2 ext3 pin par] obtain t3 ws' where
          "generateWebPFile ad t2 inp out = (t3, ws')" "ahead d E s3 t3"
          by blast
        with en' co' wr' True have "optimizeImages ad g t inp out = (Done, t3, ws')"
          by (simp add: optimizeImages_def Let_def)
        with \<open>ahead d E s3 t3\<close> r s' True show ?thesis by auto
      next
        case False
        with en' co' wr' have "optimizeImages ad g t inp out = (Done, t2, [])"
          by (auto simp: optimizeImages_def Let_def)
        with A2 r s' False show ?thesis by auto
      qed
    qed
  qed
qed

lemma processImageFile_replay:
  assumes run: "processImageFile cfg ad file w = (r, w')"
    and A: "ahead (inputDir cfg) E (files w) (files v)"
    and T: "towards E r (files w')"
  shows "\<exists>v'. processImageFile cfg ad file v = (r, v') \<and>
              ahead (inputDir cfg) E (files w') (files v')"
proof -
  let ?inp = "inputDir cfg @ file" and ?out = "outputDir cfg @ file"
  have pin: "prefix (inputDir cfg) ?inp" by simp
  show ?thesis
  proof (cases "ensureExists (files w) (butlast ?out)")
    case (Inl e)
    with run have r: "r = Thrown e" and w': "w' = w" by (auto simp: processImageFile_def Let_def)
    from T r w' have "lookup E = lookup (files w)" by (simp add: towards_def)
    from ensureExists_same[OF ahead_same[OF A this] Inl]
    have "processImageFile cfg ad file v = (Thrown e, v)" by (simp add: processImageFile_def Let_def)
    with A r w' show ?thesis by auto
  next
    case (Inr s1)
    obtain r0 s2 evs where opt:
      "optimizeImages ad (generateWebP cfg) s1 ?inp ?out = (r0, s2, evs)"
      by (cases "optimizeImages ad (generateWebP cfg) s1 ?inp ?out")
    from run Inr opt have r: "r = r0" and w': "files w' = s2"
      by (auto simp: processImageFile_def Let_def split: outcome.splits)
    from T r w' have T2: "towards E r0 s2" by simp
    from extends_trans[OF optimizeImages_extends[OF opt] towardsD[OF T2]] have "extends s1 E" .
    from ahead_ensureExists[OF A Inr this] obtain t1 where
      en': "ensureExists (files v) (butlast ?out) = Inr t1" and A1: "ahead (inputDir cfg) E s1 t1"
      by blast
    from optimizeImages_replay[OF opt A1 T2 pin] obtain t2 evs' where
      opt': "optimizeImages ad (generateWebP cfg) t1 ?inp ?out = (r0, t2, evs')"
      and A2: "ahead (inputDir cfg) E s2 t2"
      by blast
    from en' opt' have "\<exists>v'. processImageFile cfg ad file v = (r0, v') \<and> files v' = t2"
      by (cases r0) (simp_all add: processImageFile_def Let_def)
    with A2 r w' show ?thesis by auto
  qed
qed

subsection \<open>The loops and the phases, replayed\<close>

lemma forEachFile_extends:
  assumes mono: "\<And>file w r w'. body file w = (r, w') \<Longrightarrow> extends (files w) (files w')"
  shows "forEachFile body fs w = (r, w') \<Longrightarrow> extends (files w) (files w')"
  by (erule forEachFile_rel[where R = "\<lambda>a b. extends (files a) (files b)", rotated -1])
    (auto intro: extends_refl extends_trans mono)

lemma forEachFile_replay:
  fixes v :: world
  assumes step: "\<And>file w (v :: world) r w'. body file w = (r, w') \<Longrightarrow> ahead d E (files w) (files v) \<Longrightarrow>
      towards E r (files w') \<Longrightarrow> \<exists>v'. body file v = (r, v') \<and> ahead d E (files w') (files v')"
    and mono: "\<And>file w r w'. body file w = (r, w') \<Longrightarrow> extends (files w) (files w')"
  shows "forEachFile body fs w = (r, w') \<Longrightarrow> ahead d E (files w) (files v) \<Longrightarrow>
     towards E r (files w') \<Longrightarrow>
     \<exists>v'. forEachFile body fs v = (r, v') \<and> ahead d E (files w') (files v')"
proof (induction fs arbitrary: w v)
  case Nil
  then show ?case by auto
next
  case (Cons f fs)
  obtain r1 w1 where b: "body f w = (r1, w1)" by (cases "body f w")
  show ?case
  proof (cases r1)
    case (Thrown e)
    with Cons.prems(1) b have r: "r = Thrown e" and w': "w' = w1" by simp_all
    from step[OF b Cons.prems(2)] Cons.prems(3) r w' Thrown obtain v1 where
      "body f v = (Thrown e, v1)" "ahead d E (files w1) (files v1)"
      by auto
    with r w' show ?thesis by auto
  next
    case Done
    with Cons.prems(1) b have rest: "forEachFile body fs w1 = (r, w')" by simp
    from extends_trans[OF forEachFile_extends[OF mono rest] towardsD[OF Cons.prems(3)]]
    have "towards E Done (files w1)" by (rule towards_Done)
    from step[OF b[unfolded Done] Cons.prems(2) this] obtain v1 where
      b': "body f v = (Done, v1)" and A1: "ahead d E (files w1) (files v1)"
      by blast
    from Cons.IH[OF rest A1 Cons.prems(3)] b' show ?thesis by simp
  qed
qed

lemma ahead_glob: "ahead d E s t \<Longrightarrow> glob t d exts = glob s d exts"
  by (simp add: ahead_def glob_region[of d s t])

lemma replayed_processText: "replayed (inputDir cfg) E (processText cfg ad cat)"
  unfolding replayed_def processText_def
proof (intro allI impI)
  fix w v :: world and r :: outcome and w' :: world
  assume run: "forEachFile (processTextFile cfg ad cat) (glob (files w) (inputDir cfg) (pattern cat)) w =
      (r, w')"
    and A: "ahead (inputDir cfg) E (files w) (files v)" and T: "towards E r (files w')"
  from forEachFile_replay[where body = "processTextFile cfg ad cat", OF _ _ run A T]
    processTextFile_replay processTextFile_extends ahead_glob[OF A]
  show "\<exists>v'. forEachFile (processTextFile cfg ad cat) (glob (files v) (inputDir cfg) (pattern cat)) v =
      (r, v') \<and> ahead (inputDir cfg) E (files w') (files v')"
    by simp
qed

lemma replayed_processImages: "replayed (inputDir cfg) E (processImages cfg ad)"
  unfolding replayed_def processImages_def
proof (intro allI impI)
  fix w v :: world and r :: outcome and w' :: world
  assume run: "forEachFile (processImageFile cfg ad) (glob (files w) (inputDir cfg) imagePattern) w =
      (r, w')"
    and A: "ahead (inputDir cfg) E (files w) (files v)" and T: "towards E r (files w')"
  from forEachFile_replay[where body = "processImageFile cfg ad", OF _ _ run A T]
    processImageFile_replay processImageFile_extends ahead_glob[OF A]
  show "\<exists>v'. forEachFile (processImageFile cfg ad) (glob (files v) (inputDir cfg) imagePattern) v =
      (r, v') \<and> ahead (inputDir cfg) E (files w') (files v')"
    by simp
qed

lemma growing_processText: "growing (processText cfg ad cat)"
  unfolding growing_def processText_def
  by (blast intro: forEachFile_extends processTextFile_extends)

lemma growing_processImages: "growing (processImages cfg ad)"
  unfolding growing_def processImages_def
  by (blast intro: forEachFile_extends processImageFile_extends)

lemma replayed_whenSet: "replayed d E F \<Longrightarrow> replayed d E (whenSet b F)"
  unfolding replayed_def whenSet_def by auto

lemma growing_whenSet: "growing F \<Longrightarrow> growing (whenSet b F)"
  unfolding growing_def whenSet_def by (auto intro: extends_refl)

lemma growing_andThen:
  assumes F: "growing F" and G: "growing G"
  shows "growing (\<lambda>w. andThen (F w) G)"
  unfolding growing_def
proof (intro allI impI)
  fix w r w'
  assume "andThen (F w) G = (r, w')"
  then show "extends (files w) (files w')"
  proof (rule andThenE)
    fix e assume "F w = (Thrown e, w')"
    with F show ?thesis by (auto simp: growing_def)
  next
    fix w1 assume "F w = (Done, w1)" "G w1 = (r, w')"
    with F G show ?thesis unfolding growing_def by (blast intro: extends_trans)
  qed
qed

lemma replayed_andThen:
  assumes F: "replayed d E F" and G: "replayed d E G" and mono: "growing G"
  shows "replayed d E (\<lambda>w. andThen (F w) G)"
  unfolding replayed_def
proof (intro allI impI)
  fix w v :: world and r :: outcome and w' :: world
  assume run: "andThen (F w) G = (r, w')" and A: "ahead d E (files w) (files v)"
    and T: "towards E r (files w')"
  from run show "\<exists>v'. andThen (F v) G = (r, v') \<and> ahead d E (files w') (files v')"
  proof (rule andThenE)
    fix e assume f: "F w = (Thrown e, w')" and r: "r = Thrown e"
    from F f A T r obtain v' where "F v = (Thrown e, v')" "ahead d E (files w') (files v')"
      unfolding replayed_def by blast
    with r show ?thesis by (auto simp: andThen_def)
  next
    fix w1 assume f: "F w = (Done, w1)" and g: "G w1 = (r, w')"
    from mono g have "extends (files w1) (files w')" by (auto simp: growing_def)
    from towards_Done[OF extends_trans[OF this towardsD[OF T]]] F f A obtain v1 where
      f': "F v = (Done, v1)" and A1: "ahead d E (files w1) (files v1)"
      unfolding replayed_def by blast
    from G g A1 T obtain v' where "G v1 = (r, v')" "ahead d E (files w') (files v')"
      unfolding replayed_def by blast
    with f' show ?thesis by (auto simp: andThen_def)
  qed
qed

lemma categories_eq:
  "categories cfg ad =
     (\<lambda>w. andThen (andThen (andThen (whenSet (html cfg) (processText cfg ad HTML) w)
                 (whenSet (css cfg) (processText cfg ad CSS)))
              (whenSet (js cfg) (processText cfg ad JS)))
         (whenSet (images cfg) (processImages cfg ad)))"
  by (rule ext) (simp add: categories_def)

lemma growing_categories: "growing (categories cfg ad)"
  unfolding categories_eq
  by (intro growing_andThen growing_whenSet growing_processText growing_processImages)

lemma replayed_categories: "replayed (inputDir cfg) E (categories cfg ad)"
  unfolding categories_eq
  by (intro replayed_andThen replayed_whenSet replayed_processText replayed_processImages
      growing_whenSet growing_processText growing_processImages)

subsection \<open>The backup and the run, replayed\<close>

lemma copy_keeps:
  "copyDirectory n s src dest = Some (r, s') \<Longrightarrow> extends s s' \<and> (wf_fs s \<longrightarrow> wf_fs s')"
  "copyEntries n s src dest entries = Some (r, s') \<Longrightarrow> extends s s' \<and> (wf_fs s \<longrightarrow> wf_fs s')"
proof (induction n s src dest and n s src dest entries arbitrary: r s' and r s'
    rule: copyDirectory_copyEntries.induct)
  case (1 s src dest)
  then show ?case by simp
next
  case (2 n s src dest)
  show ?case
  proof (cases "readdirSync s src")
    case (Inl e)
    with "2.prems" show ?thesis by (auto intro: extends_refl)
  next
    case (Inr entries)
    with "2.prems" have "copyEntries n s src dest entries = Some (r, s')" by simp
    from "2.IH"[OF Inr this] show ?thesis .
  qed
next
  case (3 n s src dest)
  then show ?case by (auto intro: extends_refl)
next
  case (4 n s src dest name isDirectory rest)
  show ?case
  proof (cases isDirectory)
    case True
    show ?thesis
    proof (cases "mkdirSync s (dest @ [name])")
      case (Inl e)
      with True "4.prems" show ?thesis by (auto intro: extends_refl)
    next
      case (Inr s1)
      with True "4.prems" obtain r2 s2 where
        rec: "copyDirectory n s1 (src @ [name]) (dest @ [name]) = Some (r2, s2)"
        by (auto split: option.splits)
      note K1 = extends_mkdirSync[OF Inr] wf_fs_mkdirSync[OF _ Inr]
      note K2 = "4.IH"(1)[OF True Inr rec]
      show ?thesis
      proof (cases r2)
        case (Thrown e)
        with True Inr rec "4.prems" have "s' = s2" by simp
        with K1 K2 show ?thesis by (blast intro: extends_trans)
      next
        case Done
        with True Inr rec "4.prems" have rest: "copyEntries n s2 src dest rest = Some (r, s')" by simp
        from "4.IH"(2)[OF True Inr rec[unfolded Done] refl refl rest] K1 K2
        show ?thesis by (blast intro: extends_trans)
      qed
    qed
  next
    case False
    show ?thesis
    proof (cases "copyFileSync s (src @ [name]) (dest @ [name])")
      case (Inl e)
      with False "4.prems" show ?thesis by (auto intro: extends_refl)
    next
      case (Inr s1)
      then obtain c where wr: "writeFileSync s (dest @ [name]) c = Inr s1"
        by (auto simp: copyFileSync_Inr_iff)
      from False Inr "4.prems" have rest: "copyEntries n s1 src dest rest = Some (r, s')" by simp
      from "4.IH"(3)[OF False Inr rest] extends_writeFileSync[OF wr] wf_fs_writeFileSync[OF _ wr]
      show ?thesis by (blast intro: extends_trans)
    qed
  qed
qed

lemma ahead_readdirSync: "ahead d E s t \<Longrightarrow> prefix d p \<Longrightarrow> readdirSync t p = readdirSync s p"
  using readdirSync_region[of d s t p] by (simp add: ahead_def)

lemma copy_replay:
  "copyDirectory n s src dest = Some (r, s') \<Longrightarrow> prefix d src \<Longrightarrow> ahead d E s t \<Longrightarrow>
   towards E r s' \<Longrightarrow> \<exists>t'. copyDirectory n t src dest = Some (r, t') \<and> ahead d E s' t'"
  "copyEntries n s src dest entries = Some (r, s') \<Longrightarrow> prefix d src \<Longrightarrow> ahead d E s t \<Longrightarrow>
   towards E r s' \<Longrightarrow> \<exists>t'. copyEntries n t src dest entries = Some (r, t') \<and> ahead d E s' t'"
proof (induction n s src dest and n s src dest entries arbitrary: r s' t and r s' t
    rule: copyDirectory_copyEntries.induct)
  case (1 s src dest)
  then show ?case by simp
next
  case (2 n s src dest)
  note rd = ahead_readdirSync[OF "2.prems"(3,2)]
  show ?case
  proof (cases "readdirSync s src")
    case (Inl e)
    with "2.prems"(1) have "r = Thrown e" "s' = s" by simp_all
    with Inl rd "2.prems"(3) show ?thesis by simp
  next
    case (Inr entries)
    with "2.prems"(1) have "copyEntries n s src dest entries = Some (r, s')" by simp
    from "2.IH"[OF Inr this "2.prems"(2,3,4)] Inr rd show ?thesis by simp
  qed
next
  case (3 n s src dest)
  then show ?case by auto
next
  case (4 n s src dest name isDirectory rest)
  note pin = "4.prems"(2) and A = "4.prems"(3) and T = "4.prems"(4)
  from pin have pin1: "prefix d (src @ [name])" by (simp add: prefix_prefix)
  show ?case
  proof (cases isDirectory)
    case True
    show ?thesis
    proof (cases "mkdirSync s (dest @ [name])")
      case (Inl e)
      with True "4.prems"(1) have r: "r = Thrown e" and s': "s' = s" by simp_all
      from T r s' have "lookup E = lookup s" by (simp add: towards_def)
      from mkdirSync_same[OF ahead_same[OF A this] Inl] True A r s' show ?thesis by simp
    next
      case (Inr s1)
      with True "4.prems"(1) obtain r2 s2 where
        rec: "copyDirectory n s1 (src @ [name]) (dest @ [name]) = Some (r2, s2)"
        by (auto split: option.splits)
      show ?thesis
      proof (cases r2)
        case (Thrown e)
        with True Inr rec "4.prems"(1) have r: "r = Thrown e" and s': "s' = s2" by simp_all
        from T r s' have T2: "towards E r2 s2" using Thrown by simp
        from extends_trans[OF _ towardsD[OF T2]] copy_keeps(1)[OF rec] have "extends s1 E" by blast
        from ahead_mkdirSync[OF A Inr this] obtain t1 where
          mk': "mkdirSync t (dest @ [name]) = Inr t1" and A1: "ahead d E s1 t1"
          by blast
        from "4.IH"(1)[OF True Inr rec pin1 A1 T2] obtain t2 where
          "copyDirectory n t1 (src @ [name]) (dest @ [name]) = Some (r2, t2)" "ahead d E s2 t2"
          by blast
        with True mk' Thrown r s' show ?thesis by simp
      next
        case Done
        with True Inr rec "4.prems"(1) have rest: "copyEntries n s2 src dest rest = Some (r, s')"
          by simp
        from extends_trans[OF _ towardsD[OF T]] copy_keeps(2)[OF rest] have e2: "extends s2 E" by blast
        from extends_trans[OF _ e2] copy_keeps(1)[OF rec] have "extends s1 E" by blast
        from ahead_mkdirSync[OF A Inr this] obtain t1 where
          mk': "mkdirSync t (dest @ [name]) = Inr t1" and A1: "ahead d E s1 t1"
          by blast
        from "4.IH"(1)[OF True Inr rec pin1 A1] towards_Done[OF e2] Done obtain t2 where
          rec': "copyDirectory n t1 (src @ [name]) (dest @ [name]) = Some (Done, t2)"
          and A2: "ahead d E s2 t2"
          by blast
        from "4.IH"(2)[OF True Inr rec[unfolded Done] refl refl rest pin A2 T] True mk' rec'
        show ?thesis by simp
      qed
    qed
  next
    case False
    show ?thesis
    proof (cases "copyFileSync s (src @ [name]) (dest @ [name])")
      case (Inl e)
      with False "4.prems"(1) have r: "r = Thrown e" and s': "s' = s" by simp_all
      from T r s' have "lookup E = lookup s" by (simp add: towards_def)
      from ahead_same[OF A this] have same: "lookup t = lookup s" .
      have "copyFileSync t (src @ [name]) (dest @ [name]) = Inl e"
      proof (cases "readFileSync s (src @ [name])")
        case (Inl e')
        with \<open>copyFileSync s (src @ [name]) (dest @ [name]) = Inl e\<close> same show ?thesis
          by (simp add: copyFileSync_def readFileSync_def)
      next
        case (Inr c)
        with \<open>copyFileSync s (src @ [name]) (dest @ [name]) = Inl e\<close>
        have "writeFileSync s (dest @ [name]) c = Inl e" by (simp add: copyFileSync_def)
        from writeFileSync_same[OF same this] Inr same show ?thesis
          by (simp add: copyFileSync_def readFileSync_def)
      qed
      with False A r s' show ?thesis by simp
    next
      case (Inr s1)
      then obtain c where c: "lookup s (src @ [name]) = Some (File c)"
        and wr: "writeFileSync s (dest @ [name]) c = Inr s1"
        by (auto simp: copyFileSync_Inr_iff)
      from False Inr "4.prems"(1) have rest: "copyEntries n s1 src dest rest = Some (r, s')" by simp
      from extends_trans[OF _ towardsD[OF T]] copy_keeps(2)[OF rest] have "extends s1 E" by blast
      from ahead_writeFileSync[OF A wr this] obtain t1 where
        wr': "writeFileSync t (dest @ [name]) c = Inr t1" and A1: "ahead d E s1 t1"
        by blast
      from ahead_input[OF A pin1] c wr' have "copyFileSync t (src @ [name]) (dest @ [name]) = Inr t1"
        by (auto simp: copyFileSync_Inr_iff)
      with "4.IH"(3)[OF False Inr rest pin A1 T] False show ?thesis by simp
    qed
  qed
qed

lemma createBackup_keeps:
  assumes "createBackup n cfg w = Some (r, w')"
  shows "extends (files w) (files w')" "wf_fs (files w) \<Longrightarrow> wf_fs (files w')"
proof -
  have "extends (files w) (files w') \<and> (wf_fs (files w) \<longrightarrow> wf_fs (files w'))"
  proof (cases "ensureExists (files w) (backupDir cfg)")
    case (Inl e)
    with assms show ?thesis by (auto simp: createBackup_def intro: extends_refl)
  next
    case (Inr s1)
    with assms obtain s2 where cp: "copyDirectory n s1 (inputDir cfg) (backupDir cfg) = Some (r, s2)"
      and w': "files w' = s2"
      by (auto simp: createBackup_def split: option.splits)
    from copy_keeps(1)[OF cp] extends_ensureExists[OF Inr] wf_fs_ensureExists[OF _ Inr] w'
    show ?thesis by (blast intro: extends_trans)
  qed
  then show "extends (files w) (files w')" "wf_fs (files w) \<Longrightarrow> wf_fs (files w')" by simp_all
qed

lemma createBackup_replay:
  assumes run: "createBackup n cfg w = Some (r, w')"
    and A: "ahead (inputDir cfg) E (files w) (files v)" and T: "towards E r (files w')"
  shows "\<exists>v'. createBackup n cfg v = Some (r, v') \<and> ahead (inputDir cfg) E (files w') (files v')"
proof (cases "ensureExists (files w) (backupDir cfg)")
  case (Inl e)
  with run have r: "r = Thrown e" and w': "w' = w" by (auto simp: createBackup_def)
  from T r w' have "lookup E = lookup (files w)" by (simp add: towards_def)
  from ensureExists_same[OF ahead_same[OF A this] Inl] A r w' show ?thesis
    by (simp add: createBackup_def)
next
  case (Inr s1)
  with run obtain s2 where cp: "copyDirectory n s1 (inputDir cfg) (backupDir cfg) = Some (r, s2)"
    and w': "files w' = s2"
    by (auto simp: createBackup_def split: option.splits)
  from T w' have T2: "towards E r s2" by simp
  from extends_trans[OF _ towardsD[OF T2]] copy_keeps(1)[OF cp] have "extends s1 E" by blast
  from ahead_ensureExists[OF A Inr this] obtain t1 where
    en': "ensureExists (files v) (backupDir cfg) = Inr t1" and A1: "ahead (inputDir cfg) E s1 t1"
    by blast
  from copy_replay(1)[OF cp _ A1 T2] obtain t2 where
    "copyDirectory n t1 (inputDir cfg) (backupDir cfg) = Some (r, t2)" "ahead (inputDir cfg) E s2 t2"
    by auto
  with en' w' show ?thesis by (simp add: createBackup_def)
qed

lemma categories_wf:
  assumes "categories cfg ad w = (r, w')" "wf_fs (files w)"
  shows "wf_fs (files w')"
  using categories_rel[where R = "\<lambda>a b. wf_fs (files a) \<longrightarrow> wf_fs (files b)", OF _ _ _ _ assms(1)]
    processTextFile_wf processImageFile_wf assms(2)
  by blast

lemma phases_keeps:
  assumes "phases n cfg ad w = Some (r, w')" "wf_fs (files w)"
  shows "wf_fs (files w')"
proof (cases "ensureExists (files w) (outputDir cfg)")
  case (Inl e)
  with assms show ?thesis by (auto simp: phases_def)
next
  case (Inr s0)
  have wf0: "wf_fs s0" by (rule wf_fs_ensureExists[OF assms(2) Inr])
  show ?thesis
  proof (cases "backup cfg")
    case False
    with assms(1) Inr have "categories cfg ad (w\<lparr>files := s0\<rparr>) = (r, w')" by (simp add: phases_def)
    from categories_wf[OF this] wf0 show ?thesis by simp
  next
    case True
    with assms(1) Inr obtain rb wb where
      bk: "createBackup n cfg (w\<lparr>files := s0\<rparr>) = Some (rb, wb)"
      by (auto simp: phases_def split: option.splits)
    from createBackup_keeps(2)[OF bk] wf0 have wfb: "wf_fs (files wb)" by simp
    show ?thesis
    proof (cases rb)
      case (Thrown e)
      with assms(1) Inr True bk have "w' = wb" by (simp add: phases_def)
      with wfb show ?thesis by simp
    next
      case Done
      with assms(1) Inr True bk have "categories cfg ad wb = (r, w')" by (simp add: phases_def)
      from categories_wf[OF this wfb] show ?thesis .
    qed
  qed
qed

lemma phases_replay:
  fixes v :: world
  assumes run: "phases n cfg ad w = Some (r, w')"
    and A: "ahead (inputDir cfg) E (files w) (files v)" and T: "towards E r (files w')"
  shows "\<exists>v'. phases n cfg ad v = Some (r, v') \<and> ahead (inputDir cfg) E (files w') (files v')"
proof (cases "ensureExists (files w) (outputDir cfg)")
  case (Inl e)
  with run have r: "r = Thrown e" and w': "w' = w" by (auto simp: phases_def)
  from T r w' have "lookup E = lookup (files w)" by (simp add: towards_def)
  from ensureExists_same[OF ahead_same[OF A this] Inl] A r w' show ?thesis
    by (simp add: phases_def)
next
  case (Inr s0)
  note C = replayed_categories[of cfg E ad, unfolded replayed_def, rule_format]
  note G = growing_categories[of cfg ad, unfolded growing_def, rule_format]
  show ?thesis
  proof (cases "backup cfg")
    case False
    with run Inr have cat: "categories cfg ad (w\<lparr>files := s0\<rparr>) = (r, w')" by (simp add: phases_def)
    from extends_trans[OF G[OF cat] towardsD[OF T]] have "extends s0 E" by simp
    from ahead_ensureExists[OF A Inr this] obtain t0 where
      en': "ensureExists (files v) (outputDir cfg) = Inr t0" and A0: "ahead (inputDir cfg) E s0 t0"
      by blast
    from C[OF cat, of "v\<lparr>files := t0\<rparr>"] A0 T obtain v' where
      "categories cfg ad (v\<lparr>files := t0\<rparr>) = (r, v')" "ahead (inputDir cfg) E (files w') (files v')"
      by auto
    with en' False show ?thesis by (simp add: phases_def)
  next
    case True
    with run Inr obtain rb wb where
      bk: "createBackup n cfg (w\<lparr>files := s0\<rparr>) = Some (rb, wb)"
      by (auto simp: phases_def split: option.splits)
    show ?thesis
    proof (cases rb)
      case (Thrown e)
      with run Inr True bk have r: "r = Thrown e" and w': "w' = wb" by (simp_all add: phases_def)
      from T r w' Thrown have Tb: "towards E rb (files wb)" by simp
      from extends_trans[OF createBackup_keeps(1)[OF bk] towardsD[OF Tb]] have "extends s0 E" by simp
      from ahead_ensureExists[OF A Inr this] obtain t0 where
        en': "ensureExists (files v) (outputDir cfg) = Inr t0" and A0: "ahead (inputDir cfg) E s0 t0"
        by blast
      from createBackup_replay[OF bk, of E "v\<lparr>files := t0\<rparr>"] A0 Tb obtain vb where
        "createBackup n cfg (v\<lparr>files := t0\<rparr>) = Some (rb, vb)"
        "ahead (inputDir cfg) E (files wb) (files vb)"
        by auto
      with en' True Thrown r w' show ?thesis by (simp add: phases_def)
    next
      case Done
      with run Inr True bk have cat: "categories cfg ad wb = (r, w')" by (simp add: phases_def)
      from extends_trans[OF G[OF cat] towardsD[OF T]] have eb: "extends (files wb) E" .
      from extends_trans[OF createBackup_keeps(1)[OF bk] eb] have "extends s0 E" by simp
      from ahead_ensureExists[OF A Inr this] obtain t0 where
        en': "ensureExists (files v) (outputDir cfg) = Inr t0" and A0: "ahead (inputDir cfg) E s0 t0"
        by blast
      from createBackup_replay[OF bk, of E "v\<lparr>files := t0\<rparr>"] A0 towards_Done[OF eb] Done
      obtain vb where
        bk': "createBackup n cfg (v\<lparr>files := t0\<rparr>) = Some (Done, vb)"
        and Ab: "ahead (inputDir cfg) E (files wb) (files vb)"
        by auto
      from C[OF cat Ab T] obtain v' where
        "categories cfg ad vb = (r, v')" "ahead (inputDir cfg) E (files w') (files v')"
        by blast
      with en' True bk' show ?thesis by (simp add: phases_def)
    qed
  qed
qed

lemma finish_files: "finish a b (r, w) = (r', w') \<Longrightarrow> r' = r \<and> files w' = files w"
  by (cases r) (auto simp: finish_def Let_def)

text \<open>
  Claim C7, as amended. Let a run on a well-formed tree return, with whatever outcome,
  and let the entries at and below the input directory be after it what they were before
  it. Then a second run with the same configuration and adapters (the adapters are
  functions of the content, the path and nothing else), started on the tree the first
  run left, with any statistics, console and clock readings, returns with the same
  outcome (the same fuel suffices), and every path holds after it what it held after the
  first run: each output file has the same bytes.
\<close>

theorem second_run_reproduces_output:
  fixes v :: world
  assumes wf: "wf_fs (files w)"
    and first: "optimize fuel cfg ad start1 end1 w = Some (r, w1)"
    and unmodified: "region (inputDir cfg) (files w1) = region (inputDir cfg) (files w)"
    and again: "files v = files w1"
  shows "\<exists>w2. optimize fuel cfg ad start2 end2 v = Some (r, w2) \<and>
              (\<forall>p. lookup (files w2) p = lookup (files w1) p)"
proof -
  let ?E = "files w1"
  from first obtain rp wp where ph: "phases fuel cfg ad w = Some (rp, wp)"
    and fin: "finish start1 end1 (rp, wp) = (r, w1)"
    by (auto simp: optimize_def)
  from finish_files[OF fin] have r: "r = rp" and f: "files w1 = files wp" by simp_all
  have wfE: "wf_fs ?E" using phases_keeps[OF ph wf] f by simp
  have A: "ahead (inputDir cfg) ?E (files w) (files v)"
    using wf wfE unmodified again by (simp add: ahead_def)
  have T: "towards ?E rp (files wp)" using f by (simp add: towards_def extends_refl)
  from phases_replay[OF ph A T] obtain vp where
    ph': "phases fuel cfg ad v = Some (rp, vp)" and A': "ahead (inputDir cfg) ?E (files wp) (files vp)"
    by blast
  obtain r2 w2 where fin': "finish start2 end2 (rp, vp) = (r2, w2)"
    by (cases "finish start2 end2 (rp, vp)")
  from finish_files[OF fin'] have r2: "r2 = rp" and f2: "files w2 = files vp" by simp_all
  from A' f f2 have "\<forall>p. lookup (files w2) p = lookup (files w1) p" by (auto simp: ahead_def)
  moreover from ph' fin' r r2 have "optimize fuel cfg ad start2 end2 v = Some (r, w2)"
    by (simp add: optimize_def)
  ultimately show ?thesis by blast
qed
theorem second_run_reproduces_output_witness:
  "wf_fs (files (newWorld smallSite)) \<and>
   optimize 2 backupConfig idAdapters 0 1 (newWorld smallSite) =
     Some (Done,
       \<lparr>files = smallSite @ [([''dist''], Dir), ([''dist'', ''backup''], Dir),
                  ([''dist'', ''backup'', ''a.html''], File ''<p>''),
                  ([''dist'', ''a.html''], File ''<p>'')],
        stats = \<lparr>originalSize = 3, optimizedSize = 3, filesProcessed = 1, timeElapsed = 1\<rparr>,
        console = [Report (showResults
          \<lparr>originalSize = 3, optimizedSize = 3, filesProcessed = 1, timeElapsed = 1\<rparr>)]\<rparr>) \<and>
   region (inputDir backupConfig)
     (smallSite @ [([''dist''], Dir), ([''dist'', ''backup''], Dir),
                  ([''dist'', ''backup'', ''a.html''], File ''<p>''),
                  ([''dist'', ''a.html''], File ''<p>'')]) =
     region (inputDir backupConfig) smallSite \<and>
   map_option (\<lambda>(r, w). (r, lookup (files w) [''dist'', ''a.html''], lookup (files w) [''dist'', ''backup'', ''a.html'']))
     (optimize 2 backupConfig idAdapters 5 9
       (newWorld (smallSite @ [([''dist''], Dir), ([''dist'', ''backup''], Dir),
                  ([''dist'', ''backup'', ''a.html''], File ''<p>''),
                  ([''dist'', ''a.html''], File ''<p>'')]))) =
     Some (Done, Some (File ''<p>''), Some (File ''<p>''))"
proof -
  let ?F = "smallSite @ [([''dist''], Dir), ([''dist'', ''backup''], Dir),
                  ([''dist'', ''backup'', ''a.html''], File ''<p>''),
                  ([''dist'', ''a.html''], File ''<p>'')]"
  let ?W = "\<lparr>files = ?F,
        stats = \<lparr>originalSize = 3, optimizedSize = 3, filesProcessed = 1, timeElapsed = 1\<rparr>,
        console = [Report (showResults
          \<lparr>originalSize = 3, optimizedSize = 3, filesProcessed = 1, timeElapsed = 1\<rparr>)]\<rparr>"
  have wf: "wf_fs (files (newWorld smallSite))" by (simp add: newWorld_def wf_smallSite)
  have first: "optimize 2 backupConfig idAdapters 0 1 (newWorld smallSite) = Some (Done, ?W)"
    by code_simp
  have un: "region (inputDir backupConfig) (files ?W) =
      region (inputDir backupConfig) (files (newWorld smallSite))"
    by code_simp
  have ag: "files (newWorld ?F) = files ?W" by (simp add: newWorld_def)
  from second_run_reproduces_output[OF wf first un ag, of 5 9] obtain w2 where
    run: "optimize 2 backupConfig idAdapters 5 9 (newWorld ?F) = Some (Done, w2)"
    and same: "\<And>p. lookup (files w2) p = lookup (files ?W) p"
    by blast
  have l1: "lookup ?F [''dist'', ''a.html''] = Some (File ''<p>'')" by code_simp
  have l2: "lookup ?F [''dist'', ''backup'', ''a.html''] = Some (File ''<p>'')" by code_simp
  have "map_option (\<lambda>(r, w). (r, lookup (files w) [''dist'', ''a.html''],
            lookup (files w) [''dist'', ''backup'', ''a.html'']))
          (optimize 2 backupConfig idAdapters 5 9 (newWorld ?F)) =
        Some (Done, Some (File ''<p>''), Some (File ''<p>''))"
    using run same l1 l2 by simp
  with wf first un show ?thesis by (simp add: newWorld_def)
qed

text \<open>
  The claim as stated holds for every configuration. With the default directories
  \<open>./\<close> and \<open>./dist\<close> the output directory lies in the input directory: the
  first run leaves the page \<open>a.html\<close> as it was and writes \<open>dist/a.html\<close>; the
  second run, on the tree the first left, finds \<open>dist/a.html\<close> among its inputs and
  writes \<open>dist/dist/a.html\<close>, which the first run did not produce.
\<close>

theorem second_run_nests_output:
  "map_option (\<lambda>(r, w). (r, lookup (files w) [''a.html''], lookup (files w) [''dist'', ''a.html''],
        lookup (files w) [''dist'', ''dist'', ''a.html'']))
     (optimize 1 rootConfig idAdapters 0 1 (newWorld rootSite)) =
     Some (Done, Some (File ''<p>''), Some (File ''<p>''), None) \<and>
   map_option (\<lambda>(r, w). (r, lookup (files w) [''a.html''], lookup (files w) [''dist'', ''a.html''],
        lookup (files w) [''dist'', ''dist'', ''a.html'']))
     (Option.bind (optimize 1 rootConfig idAdapters 0 1 (newWorld rootSite))
        (\<lambda>(r, w1). optimize 1 rootConfig idAdapters 0 1 (newWorld (files w1)))) =
     Some (Done, Some (File ''<p>''), Some (File ''<p>''), Some (File ''<p>''))"
  by code_simp

section \<open>getFileSize\<close>


lemma statSync_Inl_iff: "(\<exists>e. statSync s p = Inl e) \<longleftrightarrow> lookup s p = None"
  by (auto simp: statSync_def split: option.splits node.splits)













end
